theory Spec2Isabelle
  imports Main "HOL-Library.Word"
begin

section \<open>Wildcard matching: the routines of fastwildcompare.go\<close>

text \<open>
  The file holds two routines, \<open>FastWildCompareAscii\<close> over the bytes of a Go string and
  \<open>FastWildCompareRuneSlices\<close> over a slice of runes. Their bodies are the same statement
  for statement; the only differences are the element type (\<open>byte\<close>, an 8-bit unsigned
  integer, against \<open>rune\<close>, a 32-bit integer) and one pair of parentheses around an
  \<open>&&\<close> under an \<open>||\<close>, which Go's precedence makes redundant. The body is therefore
  embedded once, over words of any width, and taken at width 8 and at width 32.

  The four indices are Go \<open>int\<close>s. They start at zero, move by single increments and
  stay within the lengths of the two texts (the invariants of the loops below bound the
  cursor), so they cannot wrap, and are modelled as natural numbers.
\<close>

subsection \<open>Symbols, index reads and control flow\<close>

text \<open>The byte and rune literals \<open>'*'\<close> and \<open>'?'\<close>.\<close>

definition star :: "'a::len word" where
  "star = 0x2A"

definition ques :: "'a::len word" where
  "ques = 0x3F"

text \<open>
  An index expression \<open>s[i]\<close>. Go panics when the index is out of range; here the read
  yields \<open>None\<close> and every caller turns that into the panic outcome.
\<close>

definition at :: "'a list \<Rightarrow> nat \<Rightarrow> 'a option" where
  "at s i = (if i < length s then Some (s ! i) else None)"

text \<open>
  A condition that reads slices either evaluates to a truth value or panics. The
  operators \<open>&&\<close> and \<open>||\<close> evaluate their right operand only when the left one does not
  decide the result.
\<close>

definition is_at :: "'a list \<Rightarrow> nat \<Rightarrow> 'a \<Rightarrow> bool option" where
  "is_at s i c = (case at s i of None \<Rightarrow> None | Some x \<Rightarrow> Some (x = c))"

definition isnt_at :: "'a list \<Rightarrow> nat \<Rightarrow> 'a \<Rightarrow> bool option" where
  "isnt_at s i c = (case at s i of None \<Rightarrow> None | Some x \<Rightarrow> Some (x \<noteq> c))"

definition same_at :: "'a list \<Rightarrow> nat \<Rightarrow> 'a list \<Rightarrow> nat \<Rightarrow> bool option" where
  "same_at s i u j =
     (case at s i of None \<Rightarrow> None
      | Some x \<Rightarrow> (case at u j of None \<Rightarrow> None | Some y \<Rightarrow> Some (x = y)))"

definition differ_at :: "'a list \<Rightarrow> nat \<Rightarrow> 'a list \<Rightarrow> nat \<Rightarrow> bool option" where
  "differ_at s i u j =
     (case at s i of None \<Rightarrow> None
      | Some x \<Rightarrow> (case at u j of None \<Rightarrow> None | Some y \<Rightarrow> Some (x \<noteq> y)))"

definition andalso :: "bool option \<Rightarrow> bool option \<Rightarrow> bool option" where
  "andalso a b = (case a of None \<Rightarrow> None | Some l \<Rightarrow> if l then b else Some False)"

definition orelse :: "bool option \<Rightarrow> bool option \<Rightarrow> bool option" where
  "orelse a b = (case a of None \<Rightarrow> None | Some l \<Rightarrow> if l then Some True else b)"

text \<open>
  How a fragment of a routine ends: by an index panic, by a \<open>return\<close> of the routine,
  or by handing a value on to the statements after it (a \<open>break\<close>, or the end of the
  fragment).
\<close>

datatype 'a flow = Panic | Return bool | Next 'a

text \<open>What a call of a routine yields: a run-time panic or the returned verdict.\<close>

datatype outcome = OutOfRange | Verdict bool

subsection \<open>The inner loops\<close>

text \<open>
  Lines 40 to 48, reached when the tame text has ended and the wild text has not:
  \<^verbatim>\<open>for strWild[iWild] == '*' { iWild++; if len(strWild) <= iWild { return true } }
  return false\<close>
  Every path through these lines returns from the routine; the result is the value
  returned, or \<open>None\<close> for an index panic.
\<close>

function trailingStars :: "'a::len word list \<Rightarrow> nat \<Rightarrow> bool option" where
  "trailingStars strWild iWild =
     (case is_at strWild iWild star of
        None \<Rightarrow> None
      | Some c \<Rightarrow>
          if c then
            (if length strWild \<le> iWild + 1 then Some True
             else trailingStars strWild (iWild + 1))
          else Some False)"
  by pat_completeness auto
termination
  by (relation "measure (\<lambda>(strWild, iWild). length strWild - iWild)") auto

declare trailingStars.simps [simp del]

text \<open>
  Lines 58 to 68, and again 96 to 106: step over a run of \<open>'*'\<close>.
  \<^verbatim>\<open>for { iWild++
        if len(strWild) <= iWild { return true }
        if strWild[iWild] != '*' { break } }\<close>
  The result is the new \<open>iWild\<close>.
\<close>

function skipStars :: "'a::len word list \<Rightarrow> nat \<Rightarrow> nat flow" where
  "skipStars strWild iWild =
     (if length strWild \<le> iWild + 1 then Return True
      else
        (case isnt_at strWild (iWild + 1) star of
           None \<Rightarrow> Panic
         | Some c \<Rightarrow> if c then Next (iWild + 1) else skipStars strWild (iWild + 1)))"
  by pat_completeness auto
termination
  by (relation "measure (\<lambda>(strWild, iWild). length strWild - iWild)") auto

declare skipStars.simps [simp del]

text \<open>
  Lines 72 to 78, the search of the upper loop; the tame element is read before any
  check of the length.
  \<^verbatim>\<open>for strWild[iWild] != strTame[iTame] {
      iTame++
      if len(strTame) <= iTame { return false } }\<close>
  The result is the new \<open>iTame\<close>.
\<close>

function seekFirst :: "'a::len word list \<Rightarrow> 'a word list \<Rightarrow> nat \<Rightarrow> nat \<Rightarrow> nat flow" where
  "seekFirst strWild strTame iWild iTame =
     (case differ_at strWild iWild strTame iTame of
        None \<Rightarrow> Panic
      | Some c \<Rightarrow>
          if c then
            (if length strTame \<le> iTame + 1 then Return False
             else seekFirst strWild strTame iWild (iTame + 1))
          else Next iTame)"
  by pat_completeness auto
termination
  by (relation "measure (\<lambda>(strWild, strTame, iWild, iTame). length strTame - iTame)") auto

declare seekFirst.simps [simp del]

text \<open>
  Lines 114 to 121, the search of the lower loop, which checks the length first.
  \<^verbatim>\<open>for len(strTame) > iTame && strWild[iWild] != strTame[iTame] {
      iTame++
      if len(strTame) <= iTame { return false } }\<close>
\<close>

function seekNext :: "'a::len word list \<Rightarrow> 'a word list \<Rightarrow> nat \<Rightarrow> nat \<Rightarrow> nat flow" where
  "seekNext strWild strTame iWild iTame =
     (case andalso (Some (length strTame > iTame))
                   (differ_at strWild iWild strTame iTame) of
        None \<Rightarrow> Panic
      | Some c \<Rightarrow>
          if c then
            (if length strTame \<le> iTame + 1 then Return False
             else seekNext strWild strTame iWild (iTame + 1))
          else Next iTame)"
  by pat_completeness auto
termination
  by (relation "measure (\<lambda>(strWild, strTame, iWild, iTame). length strTame - iTame)") auto

declare seekNext.simps [simp del]

text \<open>
  Lines 141 to 145: move the fallback pair over any \<open>'?'\<close> at the fallback position.
  \<^verbatim>\<open>for len(strWild) > iWildSequence && strWild[iWildSequence] == '?' {
      iWildSequence++
      iTameSequence++ }\<close>
  The result is the new pair \<open>(iWildSequence, iTameSequence)\<close>.
\<close>

function skipQuestions :: "'a::len word list \<Rightarrow> nat \<Rightarrow> nat \<Rightarrow> (nat \<times> nat) flow" where
  "skipQuestions strWild iWildSequence iTameSequence =
     (case andalso (Some (length strWild > iWildSequence))
                   (is_at strWild iWildSequence ques) of
        None \<Rightarrow> Panic
      | Some c \<Rightarrow>
          if c then skipQuestions strWild (iWildSequence + 1) (iTameSequence + 1)
          else Next (iWildSequence, iTameSequence))"
  by pat_completeness auto
termination
  by (relation "measure (\<lambda>(strWild, iWildSequence, iTameSequence).
                           length strWild - iWildSequence)")
     (auto simp: andalso_def is_at_def at_def split: if_splits)

declare skipQuestions.simps [simp del]

text \<open>
  Lines 150 to 165: advance the fallback position of the tame text.
  \<^verbatim>\<open>for { iTameSequence++
        if len(strTame) <= iTameSequence {
            if len(strWild) <= iWild { return true } else { return false } }
        if len(strWild) > iWild && strWild[iWild] == strTame[iTameSequence] { break } }\<close>
  The result is the new \<open>iTameSequence\<close>.
\<close>

function fallBack :: "'a::len word list \<Rightarrow> 'a word list \<Rightarrow> nat \<Rightarrow> nat \<Rightarrow> nat flow" where
  "fallBack strWild strTame iWild iTameSequence =
     (if length strTame \<le> iTameSequence + 1 then Return (length strWild \<le> iWild)
      else
        (case andalso (Some (length strWild > iWild))
                      (same_at strWild iWild strTame (iTameSequence + 1)) of
           None \<Rightarrow> Panic
         | Some c \<Rightarrow>
             if c then Next (iTameSequence + 1)
             else fallBack strWild strTame iWild (iTameSequence + 1)))"
  by pat_completeness auto
termination
  by (relation "measure (\<lambda>(strWild, strTame, iWild, iTameSequence).
                           length strTame - iTameSequence)") auto

declare fallBack.simps [simp del]

subsection \<open>The upper loop\<close>

text \<open>
  Lines 56 to 84, the branch of the upper loop for a \<open>'*'\<close>: \<open>iTame\<close> starts at
  \<open>iWild\<close>, the run of \<open>'*'\<close> is stepped over, and unless a \<open>'?'\<close> follows the tame text
  is searched for the element that follows. The result is the pair \<open>(iWild, iTame)\<close> at
  the \<open>break\<close>, which is also the fallback pair.
\<close>

definition gotWild :: "'a::len word list \<Rightarrow> 'a word list \<Rightarrow> nat \<Rightarrow> (nat \<times> nat) flow" where
  "gotWild strWild strTame iWild =
     (case skipStars strWild iWild of
        Panic \<Rightarrow> Panic
      | Return b \<Rightarrow> Return b
      | Next iWild' \<Rightarrow>
          (case isnt_at strWild iWild' ques of
             None \<Rightarrow> Panic
           | Some q \<Rightarrow>
               if q then
                 (case seekFirst strWild strTame iWild' iWild of
                    Panic \<Rightarrow> Panic
                  | Return b \<Rightarrow> Return b
                  | Next iTame \<Rightarrow> Next (iWild', iTame))
               else Next (iWild', iWild)))"

text \<open>Lines 36 to 90. The one index \<open>iWild\<close> serves both texts.\<close>

function upperLoop :: "'a::len word list \<Rightarrow> 'a word list \<Rightarrow> nat \<Rightarrow> (nat \<times> nat) flow" where
  "upperLoop strWild strTame iWild =
     (if length strTame \<le> iWild then
        (if length strWild > iWild then
           (case trailingStars strWild iWild of None \<Rightarrow> Panic | Some b \<Rightarrow> Return b)
         else Return True)
      else if length strWild \<le> iWild then Return False
      else
        (case is_at strWild iWild star of
           None \<Rightarrow> Panic
         | Some c \<Rightarrow>
             if c then gotWild strWild strTame iWild
             else
               (case andalso (differ_at strWild iWild strTame iWild)
                             (isnt_at strWild iWild ques) of
                  None \<Rightarrow> Panic
                | Some m \<Rightarrow>
                    if m then Return False
                    else upperLoop strWild strTame (iWild + 1))))"
  by pat_completeness auto
termination
  by (relation "measure (\<lambda>(strWild, strTame, iWild). length strTame - iWild)") auto

declare upperLoop.simps [simp del]

subsection \<open>The lower loop\<close>

text \<open>
  Lines 96 to 126, the branch of the lower loop for a further \<open>'*'\<close>. The result is the
  new pair \<open>(iWild, iTame)\<close>, which becomes the fallback pair as well.
\<close>

definition gotWildAgain ::
  "'a::len word list \<Rightarrow> 'a word list \<Rightarrow> nat \<Rightarrow> nat \<Rightarrow> (nat \<times> nat) flow" where
  "gotWildAgain strWild strTame iWild iTame =
     (case skipStars strWild iWild of
        Panic \<Rightarrow> Panic
      | Return b \<Rightarrow> Return b
      | Next iWild' \<Rightarrow>
          if length strTame \<le> iTame then Return False
          else
            (case isnt_at strWild iWild' ques of
               None \<Rightarrow> Panic
             | Some q \<Rightarrow>
                 if q then
                   (case seekNext strWild strTame iWild' iTame of
                      Panic \<Rightarrow> Panic
                    | Return b \<Rightarrow> Return b
                    | Next iTame' \<Rightarrow> Next (iWild', iTame'))
                 else Next (iWild', iTame)))"

text \<open>
  Lines 141 to 167, the retry after a mismatch: the fallback pair moves over any \<open>'?'\<close>,
  \<open>iWild\<close> returns to the fallback position of the wild text, the fallback position of the
  tame text advances, and \<open>iTame\<close> resumes there. The result is the new fallback pair,
  which \<open>(iWild, iTame)\<close> equal.
\<close>

definition retry :: "'a::len word list \<Rightarrow> 'a word list \<Rightarrow> nat \<Rightarrow> nat \<Rightarrow> (nat \<times> nat) flow" where
  "retry strWild strTame iWildSequence iTameSequence =
     (case skipQuestions strWild iWildSequence iTameSequence of
        Panic \<Rightarrow> Panic
      | Return b \<Rightarrow> Return b
      | Next (iWildSequence', iTameSequence') \<Rightarrow>
          (case fallBack strWild strTame iWildSequence' iTameSequence' of
             Panic \<Rightarrow> Panic
           | Return b \<Rightarrow> Return b
           | Next iTameSequence'' \<Rightarrow> Next (iWildSequence', iTameSequence'')))"

text \<open>
  The four indices of a routine, in the order
  \<open>(iWild, iTame, iWildSequence, iTameSequence)\<close>.
\<close>

type_synonym cursor = "nat \<times> nat \<times> nat \<times> nat"

text \<open>Lines 94 to 169: the \<open>if\<close> statement that makes up most of the lower loop's body.\<close>

fun lowerBody :: "'a::len word list \<Rightarrow> 'a word list \<Rightarrow> cursor \<Rightarrow> cursor flow" where
  "lowerBody strWild strTame (iWild, iTame, iWildSequence, iTameSequence) =
     (case andalso (Some (length strWild > iWild)) (is_at strWild iWild star) of
        None \<Rightarrow> Panic
      | Some c \<Rightarrow>
          if c then
            (case gotWildAgain strWild strTame iWild iTame of
               Panic \<Rightarrow> Panic
             | Return b \<Rightarrow> Return b
             | Next (iWild', iTame') \<Rightarrow> Next (iWild', iTame', iWild', iTame'))
          else if length strTame \<le> iTame then
            (if length strWild \<le> iWild then Return True else Return False)
          else
            (case orelse (Some (length strWild \<le> iWild))
                         (andalso (differ_at strWild iWild strTame iTame)
                                  (isnt_at strWild iWild ques)) of
               None \<Rightarrow> Panic
             | Some m \<Rightarrow>
                 if m then
                   (case retry strWild strTame iWildSequence iTameSequence of
                      Panic \<Rightarrow> Panic
                    | Return b \<Rightarrow> Return b
                    | Next (iWildSequence', iTameSequence') \<Rightarrow>
                        Next (iWildSequence', iTameSequence',
                              iWildSequence', iTameSequence'))
                 else Next (iWild, iTame, iWildSequence, iTameSequence)))"

text \<open>
  Lines 94 to 181, one turn of the lower loop: the body, the check for the end of the
  tame text, and the two increments.
\<close>

definition lowerStep :: "'a::len word list \<Rightarrow> 'a word list \<Rightarrow> cursor \<Rightarrow> cursor flow" where
  "lowerStep strWild strTame cur =
     (case lowerBody strWild strTame cur of
        Panic \<Rightarrow> Panic
      | Return b \<Rightarrow> Return b
      | Next (iWild, iTame, iWildSequence, iTameSequence) \<Rightarrow>
          if length strTame \<le> iTame then
            (if length strWild \<le> iWild then Return True else Return False)
          else Next (iWild + 1, iTame + 1, iWildSequence, iTameSequence))"

subsection \<open>Progress of the lower loop\<close>

text \<open>
  A turn of the lower loop that does not return moves the cursor down in a lexicographic
  order: a further \<open>'*'\<close> moves the fallback position of the wild text forward, a retry
  leaves it where it is or moves it forward and moves the fallback position of the tame
  text forward, and a plain match moves \<open>iTame\<close> forward. The minima make the order
  decrease from every cursor, not only from those the routine reaches.
\<close>

definition lowerOrder :: "'a list \<Rightarrow> 'b list \<Rightarrow> (cursor \<times> cursor) set" where
  "lowerOrder strWild strTame =
     measures
       [\<lambda>(iWild, iTame, iWildSequence, iTameSequence).
           length strWild - min iWild iWildSequence,
        \<lambda>(iWild, iTame, iWildSequence, iTameSequence).
           length strTame - min iTame iTameSequence,
        \<lambda>(iWild, iTame, iWildSequence, iTameSequence). length strTame - iTame]"

lemma skipStars_Next: "skipStars w i = Next j \<Longrightarrow> i < j \<and> j < length w"
proof (induction w i rule: skipStars.induct)
  case (1 w i)
  then show ?case
    by (simp add: skipStars.simps[of w i] isnt_at_def at_def split: if_splits) fastforce
qed

lemma seekNext_Next: "seekNext w t i j = Next j' \<Longrightarrow> j \<le> j'"
proof (induction w t i j rule: seekNext.induct)
  case (1 w t i j)
  then show ?case
    by (simp add: seekNext.simps[of w t i j] split: if_splits option.splits) fastforce
qed

lemma skipQuestions_Next:
  "skipQuestions w a b = Next (a', b') \<Longrightarrow> a \<le> a' \<and> b \<le> b'"
proof (induction w a b rule: skipQuestions.induct)
  case (1 w a b)
  then show ?case
    by (simp add: skipQuestions.simps[of w a b] split: if_splits option.splits) fastforce
qed

lemma fallBack_Next: "fallBack w t i j = Next j' \<Longrightarrow> j < j' \<and> j' < length t"
proof (induction w t i j rule: fallBack.induct)
  case (1 w t i j)
  then show ?case
    by (simp add: fallBack.simps[of w t i j] split: if_splits option.splits) fastforce
qed

lemma gotWildAgain_Next:
  "gotWildAgain w t iW iT = Next (iW', iT') \<Longrightarrow> iW < iW' \<and> iW' < length w \<and> iT \<le> iT'"
  by (auto simp: gotWildAgain_def split: flow.splits option.splits if_splits
           dest: skipStars_Next seekNext_Next)

lemma retry_Next:
  "retry w t iWS iTS = Next (iWS', iTS') \<Longrightarrow> iWS \<le> iWS' \<and> iTS < iTS' \<and> iTS' < length t"
  by (fastforce simp: retry_def split: flow.splits option.splits if_splits prod.splits
           dest: skipQuestions_Next fallBack_Next)

lemma lowerBody_Next:
  assumes "lowerBody w t (iW, iT, iWS, iTS) = Next (iW', iT', iWS', iTS')"
  shows "(iW < iW' \<and> iW' < length w \<and> iT \<le> iT' \<and> iWS' = iW' \<and> iTS' = iT')
       \<or> (iWS \<le> iWS' \<and> iTS < iTS' \<and> iTS' < length t \<and> iW' = iWS' \<and> iT' = iTS')
       \<or> (iW' = iW \<and> iT' = iT \<and> iWS' = iWS \<and> iTS' = iTS \<and> iT < length t)"
proof (cases "andalso (Some (length w > iW)) (is_at w iW star) = Some True")
  case True
  with assms obtain a b where g: "gotWildAgain w t iW iT = Next (a, b)"
    and e: "iW' = a" "iT' = b" "iWS' = a" "iTS' = b"
    by (auto split: flow.splits option.splits if_splits prod.splits)
  from gotWildAgain_Next[OF g] e show ?thesis by simp
next
  case False
  show ?thesis
  proof (cases "orelse (Some (length w \<le> iW))
                  (andalso (differ_at w iW t iT) (isnt_at w iW ques)) = Some True")
    case True
    with False assms obtain a b where g: "retry w t iWS iTS = Next (a, b)"
      and e: "iW' = a" "iT' = b" "iWS' = a" "iTS' = b"
      by (auto split: flow.splits option.splits if_splits prod.splits)
    from retry_Next[OF g] e show ?thesis by simp
  next
    case F2: False
    with False assms show ?thesis
      by (auto split: flow.splits option.splits if_splits prod.splits)
  qed
qed

lemma lowerStep_decreases:
  assumes "lowerStep w t c = Next c'"
  shows "(c', c) \<in> lowerOrder w t"
proof -
  obtain iW iT iWS iTS where c: "c = (iW, iT, iWS, iTS)" by (cases c) auto
  from assms obtain iW' iT' iWS' iTS' where
    b: "lowerBody w t (iW, iT, iWS, iTS) = Next (iW', iT', iWS', iTS')"
    and l: "iT' < length t" and c': "c' = (iW' + 1, iT' + 1, iWS', iTS')"
    unfolding c lowerStep_def by (auto split: flow.splits if_splits)
  from lowerBody_Next[OF b] consider
      (wild) "iW < iW'" "iW' < length w" "iWS' = iW'"
    | (again) "iWS \<le> iWS'" "iTS < iTS'" "iTS' < length t" "iW' = iWS'" "iT' = iTS'"
    | (same) "iW' = iW" "iT' = iT" "iWS' = iWS" "iTS' = iTS" "iT < length t"
    by blast
  then show ?thesis
  proof cases
    case wild
    have "length w - min (iW' + 1) iWS' < length w - min iW iWS"
      using wild by (simp add: min_def; arith)
    then show ?thesis unfolding c c' lowerOrder_def
      by (intro measures_less) simp
  next
    case again
    have 1: "length w - min (iW' + 1) iWS' \<le> length w - min iW iWS"
      using again by (simp add: min_def; arith)
    have 2: "length t - min (iT' + 1) iTS' < length t - min iT iTS"
      using again by (simp add: min_def; arith)
    show ?thesis unfolding c c' lowerOrder_def
      apply (rule measures_lesseq)
      subgoal using 1 by simp
      apply (rule measures_less)
      using 2 by simp
  next
    case same
    have 1: "length w - min (iW' + 1) iWS' \<le> length w - min iW iWS"
      using same by (simp add: min_def; arith)
    have 2: "length t - min (iT' + 1) iTS' \<le> length t - min iT iTS"
      using same by (simp add: min_def; arith)
    have 3: "length t - (iT' + 1) < length t - iT"
      using same by simp
    show ?thesis unfolding c c' lowerOrder_def
      apply (rule measures_lesseq)
      subgoal using 1 by simp
      apply (rule measures_lesseq)
      subgoal using 2 by simp
      apply (rule measures_less)
      using 3 by simp
  qed
qed

text \<open>Lines 93 to 182: the lower loop repeats its turn until a turn returns.\<close>

function lowerLoop :: "'a::len word list \<Rightarrow> 'a word list \<Rightarrow> cursor \<Rightarrow> outcome" where
  "lowerLoop strWild strTame cur =
     (case lowerStep strWild strTame cur of
        Panic \<Rightarrow> OutOfRange
      | Return b \<Rightarrow> Verdict b
      | Next cur' \<Rightarrow> lowerLoop strWild strTame cur')"
  by pat_completeness auto
termination
proof (relation
    "measures
       [\<lambda>(strWild, strTame, iWild, iTame, iWildSequence, iTameSequence).
           length strWild - min iWild iWildSequence,
        \<lambda>(strWild, strTame, iWild, iTame, iWildSequence, iTameSequence).
           length strTame - min iTame iTameSequence,
        \<lambda>(strWild, strTame, iWild, iTame, iWildSequence, iTameSequence).
           length strTame - iTame]")
  show "wf (measures
       [\<lambda>(strWild :: 'a word list, strTame :: 'a word list,
           iWild, iTame, iWildSequence, iTameSequence).
           length strWild - min iWild iWildSequence,
        \<lambda>(strWild, strTame, iWild, iTame, iWildSequence, iTameSequence).
           length strTame - min iTame iTameSequence,
        \<lambda>(strWild, strTame, iWild, iTame, iWildSequence, iTameSequence).
           length strTame - iTame])"
    by simp
next
  fix strWild strTame :: "'a word list" and cur cur' :: cursor
  assume "lowerStep strWild strTame cur = Next cur'"
  from lowerStep_decreases[OF this]
  show "((strWild, strTame, cur'), (strWild, strTame, cur))
        \<in> measures
       [\<lambda>(strWild, strTame, iWild, iTame, iWildSequence, iTameSequence).
           length strWild - min iWild iWildSequence,
        \<lambda>(strWild, strTame, iWild, iTame, iWildSequence, iTameSequence).
           length strTame - min iTame iTameSequence,
        \<lambda>(strWild, strTame, iWild, iTame, iWildSequence, iTameSequence).
           length strTame - iTame]"
    by (cases cur; cases cur') (simp add: lowerOrder_def)
qed

declare lowerLoop.simps [simp del]

subsection \<open>The two routines\<close>

text \<open>
  The body shared by the routines: the upper loop from \<open>iWild = 0\<close>, and at its
  \<open>break\<close> the lower loop, with the fallback pair equal to \<open>(iWild, iTame)\<close>.
\<close>

definition FastWildCompare :: "'a::len word list \<Rightarrow> 'a word list \<Rightarrow> outcome" where
  "FastWildCompare strWild strTame =
     (case upperLoop strWild strTame 0 of
        Panic \<Rightarrow> OutOfRange
      | Return b \<Rightarrow> Verdict b
      | Next (iWild, iTame) \<Rightarrow> lowerLoop strWild strTame (iWild, iTame, iWild, iTame))"

text \<open>Lines 28 to 183, on the bytes of the two strings.\<close>

definition FastWildCompareAscii :: "8 word list \<Rightarrow> 8 word list \<Rightarrow> outcome" where
  "FastWildCompareAscii strWild strTame = FastWildCompare strWild strTame"

text \<open>Lines 192 to 347, on the runes of the two slices.\<close>

definition FastWildCompareRuneSlices :: "32 word list \<Rightarrow> 32 word list \<Rightarrow> outcome" where
  "FastWildCompareRuneSlices rslcWild rslcTame = FastWildCompare rslcWild rslcTame"

subsection \<open>The reference semantics of the specification\<close>

text \<open>
  What the specification says a pattern means, written without regard to the code: the
  empty pattern matches the empty subject only; a \<open>'*'\<close> matches the empty sequence, or one
  subject symbol and then whatever a \<open>'*'\<close> matches; a \<open>'?'\<close> matches exactly one subject
  symbol; any other pattern symbol matches one subject symbol of equal value. This is
  the exhaustive search over all the ways to split the subject.
\<close>

fun glob :: "'a::len word list \<Rightarrow> 'a word list \<Rightarrow> bool" where
  "glob [] s = (s = [])"
| "glob (p # ps) [] = (p = star \<and> glob ps [])"
| "glob (p # ps) (c # cs) =
     (if p = star then glob ps (c # cs) \<or> glob (p # ps) cs
      else if p = ques then glob ps cs
      else p = c \<and> glob ps cs)"

text \<open>The bytes of a string literal, for writing examples down.\<close>

definition bytes :: "string \<Rightarrow> 8 word list" where
  "bytes s = map of_char s"

text \<open>
  The same meaning stated as the existence of a split: the subject is cut into one piece
  per pattern symbol, where a \<open>'*'\<close> takes any piece, a \<open>'?'\<close> a piece of exactly one symbol,
  and any other pattern symbol the piece that consists of that symbol alone.
\<close>

definition fits :: "'a::len word \<Rightarrow> 'a word list \<Rightarrow> bool" where
  "fits p seg = (if p = star then True else if p = ques then length seg = 1 else seg = [p])"

definition split_match :: "'a::len word list \<Rightarrow> 'a word list \<Rightarrow> bool" where
  "split_match P S = (\<exists>segs. concat segs = S \<and> list_all2 fits P segs)"

text \<open>
  The specification's \<open>collapseStarRuns\<close>: every maximal run of consecutive \<open>'*'\<close> becomes
  a single \<open>'*'\<close>; nothing else changes.
\<close>

fun collapseStarRuns :: "'a::len word list \<Rightarrow> 'a word list" where
  "collapseStarRuns (p # q # ps) =
     (if p = star \<and> q = star then collapseStarRuns (q # ps)
      else p # collapseStarRuns (q # ps))"
| "collapseStarRuns ps = ps"

text \<open>
  A text of single-byte symbols, and the rune slice that Go's conversion \<open>[]rune(s)\<close>
  yields for such a text: each byte below \<open>0x80\<close> is one rune of the same value.
\<close>

definition ascii :: "8 word list \<Rightarrow> bool" where
  "ascii s = list_all (\<lambda>b. b < 0x80) s"

definition runes :: "8 word list \<Rightarrow> 32 word list" where
  "runes s = map ucast s"

text \<open>
  A renaming \<open>g\<close> of subject symbols keeps the comparisons with the pattern \<open>P\<close> on the
  subject \<open>S\<close>: for every literal symbol \<open>p\<close> of \<open>P\<close> and every symbol \<open>s\<close> of \<open>S\<close>, the
  renamed \<open>s\<close> equals \<open>p\<close> exactly if \<open>s\<close> does.
\<close>

definition keeps_comparisons ::
  "'a::len word list \<Rightarrow> ('a word \<Rightarrow> 'a word) \<Rightarrow> 'a word list \<Rightarrow> bool" where
  "keeps_comparisons P g S =
     list_all (\<lambda>p. p = star \<or> p = ques \<or> list_all (\<lambda>s. (g s = p) = (s = p)) S) P"

subsection \<open>Notions for the proofs\<close>

text \<open>
  Whether the wild text from position \<open>i\<close> on matches the tame text from position \<open>j\<close>
  on, and whether a \<open>'*'\<close> followed by the wild text from \<open>i\<close> on does, that is whether the
  wild text from \<open>i\<close> matches the tame text from some position between \<open>j\<close> and its end.
\<close>

definition tail_match :: "'a::len word list \<Rightarrow> 'a word list \<Rightarrow> nat \<Rightarrow> nat \<Rightarrow> bool" where
  "tail_match w t i j = glob (drop i w) (drop j t)"

definition star_match :: "'a::len word list \<Rightarrow> 'a word list \<Rightarrow> nat \<Rightarrow> nat \<Rightarrow> bool" where
  "star_match w t i j = (\<exists>k. j \<le> k \<and> k \<le> length t \<and> tail_match w t i k)"

text \<open>
  The \<open>n\<close> wild symbols from position \<open>i\<close> are no \<open>'*'\<close> and match, one by one, the \<open>n\<close>
  tame symbols from position \<open>j\<close>.
\<close>

definition aligned :: "'a::len word list \<Rightarrow> 'a word list \<Rightarrow> nat \<Rightarrow> nat \<Rightarrow> nat \<Rightarrow> bool" where
  "aligned w t i j n =
     (\<forall>k<n. i + k < length w \<and> j + k < length t \<and> w ! (i + k) \<noteq> star
            \<and> (w ! (i + k) = ques \<or> w ! (i + k) = t ! (j + k)))"

text \<open>
  The invariant of the lower loop: the cursor is \<open>n\<close> matched symbols past the fallback
  pair, and the texts match exactly if a \<open>'*'\<close> and the wild text from the fallback
  position match the tame text from its fallback position.
\<close>

definition lowerInv :: "'a::len word list \<Rightarrow> 'a word list \<Rightarrow> cursor \<Rightarrow> bool" where
  "lowerInv w t cur =
     (case cur of (iWild, iTame, iWildSequence, iTameSequence) \<Rightarrow>
        \<exists>n. iWild = iWildSequence + n \<and> iTame = iTameSequence + n
           \<and> iWild \<le> length w \<and> iTame \<le> length t
           \<and> aligned w t iWildSequence iTameSequence n
           \<and> glob w t = star_match w t iWildSequence iTameSequence)"

section \<open>Agreement with the reference semantics\<close>

subsection \<open>The reference semantics by position\<close>

lemma glob_star:
  "glob (star # ps) s = (\<exists>k\<le>length s. glob ps (drop k s))"
proof (induction s)
  case Nil
  then show ?case by simp
next
  case (Cons c cs)
  have "(\<exists>k\<le>length (c # cs). glob ps (drop k (c # cs)))
        = (glob ps (c # cs) \<or> (\<exists>k\<le>length cs. glob ps (drop k cs)))"
    (is "?L = ?R")
  proof
    assume ?L
    then obtain k where k: "k \<le> length (c # cs)" "glob ps (drop k (c # cs))" by blast
    show ?R
    proof (cases k)
      case 0
      with k show ?thesis by simp
    next
      case (Suc m)
      with k show ?thesis by auto
    qed
  next
    assume ?R
    then show ?L
    proof
      assume "glob ps (c # cs)"
      then have "glob ps (drop 0 (c # cs))" by simp
      then show ?L by blast
    next
      assume "\<exists>k\<le>length cs. glob ps (drop k cs)"
      then obtain k where "k \<le> length cs" "glob ps (drop k cs)" by blast
      then have "Suc k \<le> length (c # cs)" "glob ps (drop (Suc k) (c # cs))" by simp_all
      then show ?L by blast
    qed
  qed
  with Cons show ?case by simp
qed

lemma glob_other:
  "p \<noteq> star \<Longrightarrow>
   glob (p # ps) s = (s \<noteq> [] \<and> (p = ques \<or> p = hd s) \<and> glob ps (tl s))"
  by (cases s) auto

lemma tail_match_end: "length w \<le> i \<Longrightarrow> tail_match w t i j = (length t \<le> j)"
  by (simp add: tail_match_def)

lemma tail_match_star:
  assumes "i < length w" "w ! i = star" "j \<le> length t"
  shows "tail_match w t i j = star_match w t (i + 1) j"
proof -
  have d: "drop i w = star # drop (Suc i) w"
    using assms by (metis Cons_nth_drop_Suc)
  have "tail_match w t i j = (\<exists>k\<le>length t - j. glob (drop (Suc i) w) (drop (j + k) t))"
    by (simp add: tail_match_def d glob_star add.commute)
  also have "\<dots> = star_match w t (i + 1) j"
  proof
    assume "\<exists>k\<le>length t - j. glob (drop (Suc i) w) (drop (j + k) t)"
    then obtain k where "k \<le> length t - j" "glob (drop (Suc i) w) (drop (j + k) t)" by blast
    with assms(3) have "j \<le> j + k" "j + k \<le> length t" "tail_match w t (i + 1) (j + k)"
      by (simp_all add: tail_match_def)
    then show "star_match w t (i + 1) j" unfolding star_match_def by blast
  next
    assume "star_match w t (i + 1) j"
    then obtain k where k: "j \<le> k" "k \<le> length t" "tail_match w t (i + 1) k"
      unfolding star_match_def by blast
    then have "k - j \<le> length t - j" "glob (drop (Suc i) w) (drop (j + (k - j)) t)"
      by (simp_all add: tail_match_def)
    then show "\<exists>k\<le>length t - j. glob (drop (Suc i) w) (drop (j + k) t)" by blast
  qed
  finally show ?thesis .
qed

lemma tail_match_other:
  assumes "i < length w" "w ! i \<noteq> star"
  shows "tail_match w t i j =
         (j < length t \<and> (w ! i = ques \<or> w ! i = t ! j) \<and> tail_match w t (i + 1) (j + 1))"
proof -
  have d: "drop i w = w ! i # drop (Suc i) w"
    using assms by (metis Cons_nth_drop_Suc)
  show ?thesis
  proof (cases "j < length t")
    case True
    then have e: "drop j t = t ! j # drop (Suc j) t" by (metis Cons_nth_drop_Suc)
    show ?thesis using assms True by (simp add: tail_match_def d e)
  next
    case False
    then show ?thesis using assms by (simp add: tail_match_def d)
  qed
qed

lemma star_match_mono: "j \<le> j' \<Longrightarrow> star_match w t i j' \<Longrightarrow> star_match w t i j"
  unfolding star_match_def by (meson le_trans)

lemma star_match_here: "j \<le> length t \<Longrightarrow> tail_match w t i j \<Longrightarrow> star_match w t i j"
  unfolding star_match_def by blast

lemma star_match_skip:
  assumes "\<not> tail_match w t i j"
  shows "star_match w t i j = star_match w t i (j + 1)"
proof
  assume "star_match w t i j"
  then obtain k where k: "j \<le> k" "k \<le> length t" "tail_match w t i k"
    unfolding star_match_def by blast
  with assms have "k \<noteq> j" by blast
  with k have "j + 1 \<le> k" by simp
  with k show "star_match w t i (j + 1)" unfolding star_match_def by blast
next
  assume "star_match w t i (j + 1)"
  then show "star_match w t i j" by (rule star_match_mono[rotated]) simp
qed

lemma star_match_last: "star_match w t i (length t) = tail_match w t i (length t)"
  unfolding star_match_def by (metis le_antisym order_refl)

lemma star_match_star:
  assumes "i < length w" "w ! i = star"
  shows "star_match w t i j = star_match w t (i + 1) j"
proof
  assume "star_match w t i j"
  then obtain k where k: "j \<le> k" "k \<le> length t" "tail_match w t i k"
    unfolding star_match_def by blast
  then have "star_match w t (i + 1) k" using tail_match_star[OF assms] by simp
  with k(1) show "star_match w t (i + 1) j" by (rule star_match_mono)
next
  assume "star_match w t (i + 1) j"
  then obtain k where k: "j \<le> k" "k \<le> length t" "tail_match w t (i + 1) k"
    unfolding star_match_def by blast
  then have "star_match w t (i + 1) k" by (intro star_match_here)
  then have "tail_match w t i k" using tail_match_star[OF assms k(2)] by simp
  with k show "star_match w t i j" unfolding star_match_def by blast
qed

lemma aligned_0: "aligned w t i j 0"
  by (simp add: aligned_def)

lemma aligned_Suc:
  "aligned w t i j (Suc n) =
     (aligned w t i j n \<and> i + n < length w \<and> j + n < length t \<and> w ! (i + n) \<noteq> star
      \<and> (w ! (i + n) = ques \<or> w ! (i + n) = t ! (j + n)))"
  unfolding aligned_def by (auto simp: less_Suc_eq)

lemma aligned_less: "aligned w t i j n \<Longrightarrow> m \<le> n \<Longrightarrow> aligned w t i j m"
  unfolding aligned_def by auto

lemma aligned_tail_match:
  "aligned w t i j n \<Longrightarrow> tail_match w t i j = tail_match w t (i + n) (j + n)"
proof (induction n)
  case 0
  then show ?case by simp
next
  case (Suc n)
  then have a: "aligned w t i j n" and b: "i + n < length w" "j + n < length t"
    "w ! (i + n) \<noteq> star" "w ! (i + n) = ques \<or> w ! (i + n) = t ! (j + n)"
    by (simp_all add: aligned_Suc)
  have "tail_match w t i j = tail_match w t (i + n) (j + n)" using Suc.IH[OF a] .
  also have "\<dots> = tail_match w t (i + n + 1) (j + n + 1)"
    using tail_match_other[OF b(1) b(3), of t "j + n"] b by simp
  finally show ?case by simp
qed

lemma aligned_shift:
  assumes "aligned w t i j n" "tail_match w t i k" "k \<le> length t"
  shows "k + n \<le> length t \<and> tail_match w t (i + n) (k + n)"
  using assms
proof (induction n)
  case 0
  then show ?case by simp
next
  case (Suc n)
  then have a: "aligned w t i j n" and b: "i + n < length w" "w ! (i + n) \<noteq> star"
    by (simp_all add: aligned_Suc)
  from Suc.IH[OF a Suc.prems(2,3)]
  have "tail_match w t (i + n) (k + n)" by simp
  then have "k + n < length t \<and> tail_match w t (i + n + 1) (k + n + 1)"
    using tail_match_other[OF b, of t "k + n"] by simp
  then show ?case by simp
qed

subsection \<open>What the inner loops compute\<close>

lemma at_in [simp]: "i < length s \<Longrightarrow> at s i = Some (s ! i)"
  by (simp add: at_def)

lemma at_out [simp]: "length s \<le> i \<Longrightarrow> at s i = None"
  by (simp add: at_def)

lemma trailingStars_glob:
  "i < length w \<Longrightarrow> trailingStars w i = Some (glob (drop i w) [])"
proof (induction w i rule: trailingStars.induct)
  case (1 w i)
  have d: "drop i w = w ! i # drop (Suc i) w"
    using "1.prems" by (metis Cons_nth_drop_Suc)
  show ?case
  proof (cases "w ! i = star")
    case False
    with "1.prems" show ?thesis
      by (simp add: trailingStars.simps[of w i] is_at_def d)
  next
    case True
    show ?thesis
    proof (cases "length w \<le> i + 1")
      case True
      with \<open>w ! i = star\<close> "1.prems" show ?thesis
        by (simp add: trailingStars.simps[of w i] is_at_def d)
    next
      case False
      then have "Suc i < length w" by simp
      with "1.IH"[of True] \<open>w ! i = star\<close> "1.prems" False
      have "trailingStars w (i + 1) = Some (glob (drop (i + 1) w) [])"
        by (simp add: is_at_def)
      with \<open>w ! i = star\<close> "1.prems" False show ?thesis
        by (simp add: trailingStars.simps[of w i] is_at_def d)
    qed
  qed
qed

lemma skipStars_match:
  assumes "i < length w" "w ! i = star"
  shows "(skipStars w i = Return True \<and> (\<forall>j\<le>length t. tail_match w t i j))
       \<or> (\<exists>i'. skipStars w i = Next i' \<and> i < i' \<and> i' < length w \<and> w ! i' \<noteq> star
               \<and> (\<forall>j\<le>length t. tail_match w t i j = star_match w t i' j))"
  using assms
proof (induction w i rule: skipStars.induct)
  case (1 w i)
  note st = tail_match_star[OF "1.prems"]
  show ?case
  proof (cases "length w \<le> i + 1")
    case True
    have "tail_match w t i j" if "j \<le> length t" for j
    proof -
      have "tail_match w t (i + 1) (length t)" using True by (simp add: tail_match_end)
      with that have "star_match w t (i + 1) j" unfolding star_match_def by blast
      with st[OF that] show ?thesis by simp
    qed
    with True show ?thesis by (simp add: skipStars.simps[of w i])
  next
    case False
    then have l: "i + 1 < length w" by simp
    show ?thesis
    proof (cases "w ! (i + 1) = star")
      case False
      with l st show ?thesis
        by (simp add: skipStars.simps[of w i] isnt_at_def)
    next
      case True
      have eq: "skipStars w i = skipStars w (i + 1)"
        using l True by (simp add: skipStars.simps[of w i] isnt_at_def)
      from "1.IH"[of False] l True
      consider (all) "skipStars w (i + 1) = Return True"
                     "\<forall>j\<le>length t. tail_match w t (i + 1) j"
        | (some) i' where "skipStars w (i + 1) = Next i'" "i + 1 < i'" "i' < length w"
                     "w ! i' \<noteq> star"
                     "\<forall>j\<le>length t. tail_match w t (i + 1) j = star_match w t i' j"
        by (auto simp: isnt_at_def)
      then show ?thesis
      proof cases
        case all
        have "tail_match w t i j" if "j \<le> length t" for j
          using st[OF that] all(2) that star_match_here by blast
        with all eq show ?thesis by simp
      next
        case some
        have "tail_match w t i j = star_match w t i' j" if "j \<le> length t" for j
        proof -
          have "tail_match w t i j = star_match w t (i + 1) j" using st[OF that] .
          also have "\<dots> = tail_match w t (i + 1) j"
            using tail_match_star[OF l True that] star_match_star[OF l True] by simp
          also have "\<dots> = star_match w t i' j" using some(5) that by simp
          finally show ?thesis .
        qed
        with some eq show ?thesis by simp
      qed
    qed
  qed
qed

lemma no_match_literal:
  assumes "i < length w" "w ! i \<noteq> star" "w ! i \<noteq> ques" "j < length t \<longrightarrow> w ! i \<noteq> t ! j"
  shows "\<not> tail_match w t i j"
  using tail_match_other[OF assms(1,2), of t j] assms(3,4) by auto

lemma seekFirst_match:
  assumes "iW < length w" "w ! iW \<noteq> star" "w ! iW \<noteq> ques" "iT < length t"
  shows "(seekFirst w t iW iT = Return False \<and> \<not> star_match w t iW iT)
       \<or> (\<exists>iT'. seekFirst w t iW iT = Next iT' \<and> iT \<le> iT' \<and> iT' < length t
               \<and> w ! iW = t ! iT'
               \<and> star_match w t iW iT = star_match w t iW iT')"
  using assms
proof (induction w t iW iT rule: seekFirst.induct)
  case (1 w t iW iT)
  show ?case
  proof (cases "w ! iW = t ! iT")
    case True
    with "1.prems" show ?thesis
      by (simp add: seekFirst.simps[of w t iW iT] differ_at_def)
  next
    case False
    with "1.prems" have "\<not> tail_match w t iW iT" by (intro no_match_literal) simp_all
    then have sk: "star_match w t iW iT = star_match w t iW (iT + 1)"
      by (rule star_match_skip)
    show ?thesis
    proof (cases "length t \<le> iT + 1")
      case True
      with "1.prems" have "iT + 1 = length t" by simp
      moreover have "\<not> tail_match w t iW (length t)"
        using "1.prems" by (intro no_match_literal) simp_all
      ultimately have "\<not> star_match w t iW (iT + 1)" by (simp add: star_match_last)
      with sk True False "1.prems" show ?thesis
        by (simp add: seekFirst.simps[of w t iW iT] differ_at_def)
    next
      case F: False
      then have l: "iT + 1 < length t" by simp
      have eq: "seekFirst w t iW iT = seekFirst w t iW (iT + 1)"
        using F False "1.prems" by (simp add: seekFirst.simps[of w t iW iT] differ_at_def)
      from "1.IH"[of True] F False "1.prems" l
      have "(seekFirst w t iW (iT + 1) = Return False \<and> \<not> star_match w t iW (iT + 1))
       \<or> (\<exists>iT'. seekFirst w t iW (iT + 1) = Next iT' \<and> iT + 1 \<le> iT' \<and> iT' < length t
               \<and> w ! iW = t ! iT'
               \<and> star_match w t iW (iT + 1) = star_match w t iW iT')"
        by (simp add: differ_at_def)
      with eq sk show ?thesis by auto
    qed
  qed
qed

lemma seekNext_eq:
  "iT < length t \<Longrightarrow> seekNext w t iW iT = seekFirst w t iW iT"
proof (induction w t iW iT rule: seekNext.induct)
  case (1 w t iW iT)
  show ?case
  proof (cases "differ_at w iW t iT")
    case None
    with "1.prems" show ?thesis
      by (simp add: seekNext.simps[of w t iW iT] seekFirst.simps[of w t iW iT] andalso_def)
  next
    case (Some c)
    show ?thesis
    proof (cases "c \<and> \<not> length t \<le> iT + 1")
      case True
      with "1.IH"[of c] Some "1.prems"
      have "seekNext w t iW (iT + 1) = seekFirst w t iW (iT + 1)"
        by (simp add: andalso_def)
      with True Some "1.prems" show ?thesis
        by (simp add: seekNext.simps[of w t iW iT] seekFirst.simps[of w t iW iT] andalso_def)
    next
      case False
      with Some "1.prems" show ?thesis
        by (auto simp: seekNext.simps[of w t iW iT] seekFirst.simps[of w t iW iT]
                  andalso_def)
    qed
  qed
qed

lemma skipQuestions_run:
  "\<exists>q. skipQuestions w a b = Next (a + q, b + q)
       \<and> (\<forall>k<q. a + k < length w \<and> w ! (a + k) = ques)
       \<and> (a + q < length w \<longrightarrow> w ! (a + q) \<noteq> ques)"
proof (induction w a b rule: skipQuestions.induct)
  case (1 w a b)
  show ?case
  proof (cases "a < length w \<and> w ! a = ques")
    case False
    then have "skipQuestions w a b = Next (a + 0, b + 0)"
      by (auto simp: skipQuestions.simps[of w a b] andalso_def is_at_def)
    moreover have "a + 0 < length w \<longrightarrow> w ! (a + 0) \<noteq> ques" using False by simp
    ultimately show ?thesis by blast
  next
    case True
    then have eq: "skipQuestions w a b = skipQuestions w (a + 1) (b + 1)"
      by (simp add: skipQuestions.simps[of w a b] andalso_def is_at_def)
    from "1.IH"[of True] True obtain q where
      q: "skipQuestions w (a + 1) (b + 1) = Next (a + 1 + q, b + 1 + q)"
         "\<forall>k<q. a + 1 + k < length w \<and> w ! (a + 1 + k) = ques"
         "a + 1 + q < length w \<longrightarrow> w ! (a + 1 + q) \<noteq> ques"
      by (auto simp: andalso_def is_at_def)
    have "skipQuestions w a b = Next (a + Suc q, b + Suc q)" using eq q(1) by simp
    moreover have "\<forall>k<Suc q. a + k < length w \<and> w ! (a + k) = ques"
    proof (intro allI impI)
      fix k assume "k < Suc q"
      show "a + k < length w \<and> w ! (a + k) = ques"
      proof (cases k)
        case 0
        with True show ?thesis by simp
      next
        case (Suc m)
        with \<open>k < Suc q\<close> q(2) show ?thesis by auto
      qed
    qed
    moreover have "a + Suc q < length w \<longrightarrow> w ! (a + Suc q) \<noteq> ques" using q(3) by simp
    ultimately show ?thesis by blast
  qed
qed

lemma fallBack_match:
  assumes "a < length w \<longrightarrow> w ! a \<noteq> star \<and> w ! a \<noteq> ques" "j < length t"
  shows "fallBack w t a j = Return (star_match w t a (j + 1))
       \<or> (\<exists>j'. fallBack w t a j = Next j' \<and> j < j' \<and> j' < length t \<and> a < length w
               \<and> w ! a = t ! j'
               \<and> star_match w t a (j + 1) = star_match w t a j')"
  using assms
proof (induction w t a j rule: fallBack.induct)
  case (1 w t a j)
  show ?case
  proof (cases "length t \<le> j + 1")
    case True
    with "1.prems" have e: "j + 1 = length t" by simp
    have "tail_match w t a (length t) = (length w \<le> a)"
    proof (cases "length w \<le> a")
      case True
      then show ?thesis by (simp add: tail_match_end)
    next
      case False
      with "1.prems" have "\<not> tail_match w t a (length t)"
        by (intro no_match_literal) simp_all
      with False show ?thesis by simp
    qed
    then have "star_match w t a (j + 1) = (length w \<le> a)"
      using e by (simp add: star_match_last)
    with True show ?thesis by (simp add: fallBack.simps[of w t a j])
  next
    case False
    then have l: "j + 1 < length t" by simp
    show ?thesis
    proof (cases "a < length w \<and> w ! a = t ! (j + 1)")
      case True
      with l have "fallBack w t a j = Next (j + 1)"
        by (simp add: fallBack.simps[of w t a j] andalso_def same_at_def)
      with True l show ?thesis by auto
    next
      case F: False
      have eq: "fallBack w t a j = fallBack w t a (j + 1)"
        using F l by (auto simp: fallBack.simps[of w t a j] andalso_def same_at_def)
      have "\<not> tail_match w t a (j + 1)"
      proof (cases "length w \<le> a")
        case True
        with l show ?thesis by (simp add: tail_match_end)
      next
        case False
        with F "1.prems" show ?thesis by (intro no_match_literal) simp_all
      qed
      then have sk: "star_match w t a (j + 1) = star_match w t a (j + 1 + 1)"
        by (rule star_match_skip)
      from F l have c: "andalso (Some (a < length w)) (same_at w a t (j + 1)) = Some False"
        by (auto simp: andalso_def same_at_def)
      from "1.IH"[OF False c] "1.prems" l
      have "fallBack w t a (j + 1) = Return (star_match w t a (j + 1 + 1))
       \<or> (\<exists>j'. fallBack w t a (j + 1) = Next j' \<and> j + 1 < j' \<and> j' < length t \<and> a < length w
               \<and> w ! a = t ! j'
               \<and> star_match w t a (j + 1 + 1) = star_match w t a j')"
        by simp
      with eq sk show ?thesis by auto
    qed
  qed
qed

subsection \<open>The further wildcard and the retry\<close>

lemma gotWild_eq:
  "iWild < length t \<Longrightarrow> gotWild w t iWild = gotWildAgain w t iWild iWild"
  by (simp add: gotWild_def gotWildAgain_def seekNext_eq
           split: flow.splits option.splits)

lemma gotWildAgain_match:
  assumes "iW < length w" "w ! iW = star" "iT \<le> length t"
  shows "gotWildAgain w t iW iT = Return (tail_match w t iW iT)
       \<or> (\<exists>iW' iT'. gotWildAgain w t iW iT = Next (iW', iT') \<and> iW' < length w
               \<and> iT' < length t \<and> w ! iW' \<noteq> star
               \<and> (w ! iW' = ques \<or> w ! iW' = t ! iT')
               \<and> tail_match w t iW iT = star_match w t iW' iT')"
proof -
  from skipStars_match[OF assms(1,2), of t]
  consider (all) "skipStars w iW = Return True" "\<forall>j\<le>length t. tail_match w t iW j"
    | (some) i' where "skipStars w iW = Next i'" "i' < length w" "w ! i' \<noteq> star"
        "\<forall>j\<le>length t. tail_match w t iW j = star_match w t i' j"
    by blast
  then show ?thesis
  proof cases
    case all
    with assms(3) show ?thesis by (simp add: gotWildAgain_def)
  next
    case some
    from some(4) assms(3) have tm: "tail_match w t iW iT = star_match w t i' iT" by simp
    show ?thesis
    proof (cases "length t \<le> iT")
      case True
      with assms(3) have "iT = length t" by simp
      moreover have "\<not> tail_match w t i' (length t)"
        using tail_match_other[OF some(2,3), of t "length t"] by simp
      ultimately have "\<not> tail_match w t iW iT" using tm by (simp add: star_match_last)
      with some True show ?thesis by (simp add: gotWildAgain_def)
    next
      case False
      then have l: "iT < length t" by simp
      show ?thesis
      proof (cases "w ! i' = ques")
        case True
        with some l tm show ?thesis by (simp add: gotWildAgain_def isnt_at_def)
      next
        case F: False
        from seekFirst_match[OF some(2,3) F l]
        consider (none) "seekFirst w t i' iT = Return False" "\<not> star_match w t i' iT"
          | (found) iT' where "seekFirst w t i' iT = Next iT'" "iT' < length t"
              "w ! i' = t ! iT'" "star_match w t i' iT = star_match w t i' iT'"
          by blast
        then show ?thesis
        proof cases
          case none
          with some l F tm show ?thesis
            by (simp add: gotWildAgain_def isnt_at_def seekNext_eq)
        next
          case found
          with some l F tm show ?thesis
            by (simp add: gotWildAgain_def isnt_at_def seekNext_eq)
        qed
      qed
    qed
  qed
qed

lemma star_advance:
  assumes "aligned w t iWS iTS n" "iWS + n < length w" "w ! (iWS + n) = star"
    "iTS + n \<le> length t"
  shows "star_match w t iWS iTS = tail_match w t (iWS + n) (iTS + n)"
proof
  assume "tail_match w t (iWS + n) (iTS + n)"
  then have "tail_match w t iWS iTS"
    using aligned_tail_match[OF assms(1)] by blast
  moreover have "iTS \<le> length t" using assms(4) by simp
  ultimately show "star_match w t iWS iTS" by (intro star_match_here)
next
  assume "star_match w t iWS iTS"
  then obtain k where k: "iTS \<le> k" "k \<le> length t" "tail_match w t iWS k"
    unfolding star_match_def by blast
  from aligned_shift[OF assms(1) k(3,2)]
  have s: "k + n \<le> length t" "tail_match w t (iWS + n) (k + n)" by blast+
  from s(2) have "star_match w t (iWS + n + 1) (k + n)"
    using tail_match_star[OF assms(2,3) s(1)] by blast
  moreover have "iTS + n \<le> k + n" using k(1) by simp
  ultimately have "star_match w t (iWS + n + 1) (iTS + n)"
    using star_match_mono by blast
  then show "tail_match w t (iWS + n) (iTS + n)"
    using tail_match_star[OF assms(2,3,4)] by blast
qed

lemma retry_match:
  assumes al: "aligned w t iWS iTS n" and iW: "iW = iWS + n" and iT: "iT = iTS + n"
    and lw: "iW \<le> length w" and lt: "iT < length t"
    and ns: "iW < length w \<longrightarrow> w ! iW \<noteq> star"
    and mm: "length w \<le> iW \<or> (w ! iW \<noteq> t ! iT \<and> w ! iW \<noteq> ques)"
  shows "retry w t iWS iTS = Return (star_match w t iWS iTS)
       \<or> (\<exists>a j. retry w t iWS iTS = Next (a, j) \<and> a < length w \<and> j < length t
               \<and> w ! a \<noteq> star \<and> w ! a = t ! j
               \<and> star_match w t iWS iTS = star_match w t a j)"
proof -
  have "\<not> tail_match w t iW iT"
  proof (cases "length w \<le> iW")
    case True
    with lt show ?thesis by (simp add: tail_match_end)
  next
    case False
    with ns mm show ?thesis by (intro no_match_literal) simp_all
  qed
  then have "\<not> tail_match w t iWS iTS"
    using aligned_tail_match[OF al] iW iT by simp
  then have sk: "star_match w t iWS iTS = star_match w t iWS (iTS + 1)"
    by (rule star_match_skip)
  from skipQuestions_run[of w iWS iTS] obtain q where
    q: "skipQuestions w iWS iTS = Next (iWS + q, iTS + q)"
       "\<forall>k<q. iWS + k < length w \<and> w ! (iWS + k) = ques"
       "iWS + q < length w \<longrightarrow> w ! (iWS + q) \<noteq> ques"
    by blast
  have qn: "q \<le> n"
  proof (rule ccontr)
    assume "\<not> q \<le> n"
    then have "n < q" by simp
    with q(2) have "iWS + n < length w \<and> w ! (iWS + n) = ques" by blast
    with mm iW show False by simp
  qed
  define a where "a = iWS + q"
  define b where "b = iTS + q"
  have alq: "aligned w t iWS iTS q" using al qn by (rule aligned_less)
  have ab: "a \<le> length w" "b < length t" using qn iW iT lw lt by (simp_all add: a_def b_def)
  have lit: "a < length w \<longrightarrow> w ! a \<noteq> star \<and> w ! a \<noteq> ques"
  proof (cases "q = n")
    case True
    then have "a = iW" by (simp add: a_def iW)
    with ns q(3) show ?thesis by (simp add: a_def)
  next
    case False
    with qn have "q < n" by simp
    with al have "w ! (iWS + q) \<noteq> star" unfolding aligned_def by blast
    with q(3) show ?thesis by (simp add: a_def)
  qed
  have mv: "star_match w t iWS (iTS + 1) = star_match w t a (b + 1)"
  proof
    assume "star_match w t iWS (iTS + 1)"
    then obtain k where k: "iTS + 1 \<le> k" "k \<le> length t" "tail_match w t iWS k"
      unfolding star_match_def by blast
    from aligned_shift[OF alq k(3,2)]
    have "k + q \<le> length t" "tail_match w t a (k + q)" by (simp_all add: a_def)
    moreover have "b + 1 \<le> k + q" using k(1) by (simp add: b_def)
    ultimately show "star_match w t a (b + 1)" unfolding star_match_def by blast
  next
    assume "star_match w t a (b + 1)"
    then obtain k' where k': "b + 1 \<le> k'" "k' \<le> length t" "tail_match w t a k'"
      unfolding star_match_def by blast
    define k where "k = k' - q"
    have kq: "k + q = k'" "iTS + 1 \<le> k" "k \<le> length t"
      using k'(1,2) by (simp_all add: k_def b_def)
    have "aligned w t iWS k q"
      unfolding aligned_def
    proof (intro allI impI)
      fix x assume x: "x < q"
      with alq have "w ! (iWS + x) \<noteq> star" unfolding aligned_def by blast
      moreover from x q(2) have "iWS + x < length w" "w ! (iWS + x) = ques" by simp_all
      moreover from x kq k'(2) have "k + x < length t" by simp
      ultimately show "iWS + x < length w \<and> k + x < length t \<and> w ! (iWS + x) \<noteq> star
            \<and> (w ! (iWS + x) = ques \<or> w ! (iWS + x) = t ! (k + x))"
        by simp
    qed
    then have "tail_match w t iWS k = tail_match w t a k'"
      using aligned_tail_match[of w t iWS k q] kq(1) by (simp add: a_def)
    with k'(3) kq show "star_match w t iWS (iTS + 1)" unfolding star_match_def by blast
  qed
  have r: "retry w t iWS iTS =
        (case fallBack w t a b of Panic \<Rightarrow> Panic | Return x \<Rightarrow> Return x
         | Next j \<Rightarrow> Next (a, j))"
    unfolding retry_def a_def b_def using q(1) by simp
  from fallBack_match[OF lit ab(2)]
  consider (ret) "fallBack w t a b = Return (star_match w t a (b + 1))"
    | (nxt) j where "fallBack w t a b = Next j" "j < length t" "a < length w"
        "w ! a = t ! j" "star_match w t a (b + 1) = star_match w t a j"
    by blast
  then show ?thesis
  proof cases
    case ret
    with r sk mv show ?thesis by simp
  next
    case nxt
    with r sk mv lit show ?thesis by simp
  qed
qed

subsection \<open>The loops keep their invariants\<close>

lemma lowerInv_fresh:
  assumes "a < length w" "j < length t" "w ! a \<noteq> star" "w ! a = ques \<or> w ! a = t ! j"
    "glob w t = star_match w t a j"
  shows "lowerInv w t (a + 1, j + 1, a, j)"
proof -
  have "aligned w t a j (Suc 0)" using assms by (simp add: aligned_Suc aligned_0)
  with assms show ?thesis unfolding lowerInv_def by (auto intro!: exI[of _ "Suc 0"])
qed

lemma lowerStep_correct:
  assumes "lowerInv w t cur"
  shows "lowerStep w t cur = Return (glob w t)
       \<or> (\<exists>cur'. lowerStep w t cur = Next cur' \<and> lowerInv w t cur')"
proof -
  obtain iW iT iWS iTS where cur: "cur = (iW, iT, iWS, iTS)" by (cases cur) auto
  from assms obtain n where n: "iW = iWS + n" "iT = iTS + n"
    and lw: "iW \<le> length w" and lt: "iT \<le> length t"
    and al: "aligned w t iWS iTS n" and g: "glob w t = star_match w t iWS iTS"
    unfolding lowerInv_def cur by auto
  show ?thesis
  proof (cases "iW < length w \<and> w ! iW = star")
    case True
    then have c: "andalso (Some (iW < length w)) (is_at w iW star) = Some True"
      by (simp add: andalso_def is_at_def)
    have g': "glob w t = tail_match w t iW iT"
      using star_advance[OF al, folded n] True lt g by simp
    from True have st: "iW < length w" "w ! iW = star" by simp_all
    from gotWildAgain_match[OF st lt]
    consider (ret) "gotWildAgain w t iW iT = Return (tail_match w t iW iT)"
      | (nxt) iW' iT' where "gotWildAgain w t iW iT = Next (iW', iT')" "iW' < length w"
          "iT' < length t" "w ! iW' \<noteq> star" "w ! iW' = ques \<or> w ! iW' = t ! iT'"
          "tail_match w t iW iT = star_match w t iW' iT'"
      by blast
    then show ?thesis
    proof cases
      case ret
      with c g' show ?thesis by (simp add: lowerStep_def cur)
    next
      case nxt
      have "lowerStep w t cur = Next (iW' + 1, iT' + 1, iW', iT')"
        using c nxt(1,3) by (simp add: lowerStep_def cur)
      moreover have "lowerInv w t (iW' + 1, iT' + 1, iW', iT')"
        using nxt g' by (intro lowerInv_fresh) simp_all
      ultimately show ?thesis by blast
    qed
  next
    case False
    then have c: "andalso (Some (iW < length w)) (is_at w iW star) = Some False"
      by (auto simp: andalso_def is_at_def)
    have ns: "iW < length w \<longrightarrow> w ! iW \<noteq> star" using False by simp
    show ?thesis
    proof (cases "length t \<le> iT")
      case True
      with lt have e: "iT = length t" by simp
      have "star_match w t iWS iTS = (length w \<le> iW)"
      proof (cases "length w \<le> iW")
        case True
        then have "tail_match w t iW iT" using e by (simp add: tail_match_end)
        then have "tail_match w t iWS iTS" using aligned_tail_match[OF al] n by simp
        moreover have "iTS \<le> length t" using n lt by simp
        ultimately have "star_match w t iWS iTS" by (rule star_match_here[rotated])
        with True show ?thesis by simp
      next
        case F: False
        have "\<not> star_match w t iWS iTS"
        proof
          assume "star_match w t iWS iTS"
          then obtain k where k: "iTS \<le> k" "k \<le> length t" "tail_match w t iWS k"
            unfolding star_match_def by blast
          from aligned_shift[OF al k(3,2)]
          have "tail_match w t iW (k + n)" using n by simp
          moreover have "iW < length w" "w ! iW \<noteq> star" using F ns by simp_all
          ultimately have "k + n < length t"
            using tail_match_other[of iW w t "k + n"] by simp
          with k(1) n e show False by simp
        qed
        with F show ?thesis by simp
      qed
      with g c True show ?thesis by (auto simp: lowerStep_def cur)
    next
      case F2: False
      then have l: "iT < length t" by simp
      show ?thesis
      proof (cases "length w \<le> iW \<or> (w ! iW \<noteq> t ! iT \<and> w ! iW \<noteq> ques)")
        case True
        then have m: "orelse (Some (length w \<le> iW))
                        (andalso (differ_at w iW t iT) (isnt_at w iW ques)) = Some True"
          using l by (auto simp: orelse_def andalso_def differ_at_def isnt_at_def)
        from retry_match[OF al n lw l ns True]
        consider (ret) "retry w t iWS iTS = Return (star_match w t iWS iTS)"
          | (nxt) a j where "retry w t iWS iTS = Next (a, j)" "a < length w"
              "j < length t" "w ! a \<noteq> star" "w ! a = t ! j"
              "star_match w t iWS iTS = star_match w t a j"
          by blast
        then show ?thesis
        proof cases
          case ret
          with c m F2 g show ?thesis by (simp add: lowerStep_def cur)
        next
          case nxt
          have "lowerStep w t cur = Next (a + 1, j + 1, a, j)"
            using c m F2 nxt(1,3) by (simp add: lowerStep_def cur)
          moreover have "lowerInv w t (a + 1, j + 1, a, j)"
            using nxt g by (intro lowerInv_fresh) simp_all
          ultimately show ?thesis by blast
        qed
      next
        case F3: False
        then have w: "iW < length w" "w ! iW = ques \<or> w ! iW = t ! iT" by auto
        with ns have nst: "w ! iW \<noteq> star" by simp
        have m: "orelse (Some (length w \<le> iW))
                        (andalso (differ_at w iW t iT) (isnt_at w iW ques)) = Some False"
          using w l by (auto simp: orelse_def andalso_def differ_at_def isnt_at_def)
        have "lowerStep w t cur = Next (iW + 1, iT + 1, iWS, iTS)"
          using c m F2 by (simp add: lowerStep_def cur)
        moreover have "aligned w t iWS iTS (Suc n)"
          using al w nst l n by (simp add: aligned_Suc)
        then have "lowerInv w t (iW + 1, iT + 1, iWS, iTS)"
          unfolding lowerInv_def using n w l g by (auto intro!: exI[of _ "Suc n"])
        ultimately show ?thesis by blast
      qed
    qed
  qed
qed

lemma lowerLoop_correct:
  "lowerInv w t cur \<Longrightarrow> lowerLoop w t cur = Verdict (glob w t)"
proof (induction w t cur rule: lowerLoop.induct)
  case (1 w t cur)
  from lowerStep_correct[OF "1.prems"]
  consider (ret) "lowerStep w t cur = Return (glob w t)"
    | (nxt) cur' where "lowerStep w t cur = Next cur'" "lowerInv w t cur'"
    by blast
  then show ?case
  proof cases
    case ret
    then show ?thesis by (simp add: lowerLoop.simps[of w t cur])
  next
    case nxt
    with "1.IH"[OF nxt(1) nxt(2)] show ?thesis by (simp add: lowerLoop.simps[of w t cur])
  qed
qed

lemma upperLoop_correct:
  assumes "aligned w t 0 0 i" "i \<le> length w" "i \<le> length t"
  shows "upperLoop w t i = Return (glob w t)
       \<or> (\<exists>iW iT. upperLoop w t i = Next (iW, iT) \<and> lowerInv w t (iW, iT, iW, iT))"
  using assms
proof (induction w t i rule: upperLoop.induct)
  case (1 w t i)
  have g: "glob w t = tail_match w t i i"
    using aligned_tail_match[OF "1.prems"(1)] by (simp add: tail_match_def)
  show ?case
  proof (cases "length t \<le> i")
    case T0: True
    with "1.prems" have e: "i = length t" by simp
    show ?thesis
    proof (cases "i < length w")
      case True
      have "upperLoop w t i =
              (case trailingStars w i of None \<Rightarrow> Panic | Some b \<Rightarrow> Return b)"
        using T0 True by (simp add: upperLoop.simps[of w t i])
      then have "upperLoop w t i = Return (glob (drop i w) [])"
        using trailingStars_glob[OF True] by simp
      moreover have "glob w t = glob (drop i w) []" using g e by (simp add: tail_match_def)
      ultimately show ?thesis by simp
    next
      case False
      have "upperLoop w t i = Return True"
        using T0 False by (simp add: upperLoop.simps[of w t i])
      moreover have "tail_match w t i i" using False e by (simp add: tail_match_end)
      ultimately show ?thesis using g by simp
    qed
  next
    case False
    then have l: "i < length t" by simp
    show ?thesis
    proof (cases "length w \<le> i")
      case True
      then have "\<not> tail_match w t i i" using l by (simp add: tail_match_end)
      with True l g show ?thesis by (simp add: upperLoop.simps[of w t i])
    next
      case F: False
      then have lw: "i < length w" by simp
      show ?thesis
      proof (cases "w ! i = star")
        case True
        have u: "upperLoop w t i = gotWildAgain w t i i"
          using True l lw by (simp add: upperLoop.simps[of w t i] is_at_def gotWild_eq)
        from gotWildAgain_match[OF lw True, of i t] l
        consider (ret) "gotWildAgain w t i i = Return (tail_match w t i i)"
          | (nxt) iW' iT' where "gotWildAgain w t i i = Next (iW', iT')" "iW' < length w"
              "iT' < length t" "tail_match w t i i = star_match w t iW' iT'"
          by auto
        then show ?thesis
        proof cases
          case ret
          with u g show ?thesis by simp
        next
          case nxt
          have "lowerInv w t (iW', iT', iW', iT')"
            unfolding lowerInv_def using nxt g by (auto simp: aligned_0)
          with u nxt(1) show ?thesis by simp
        qed
      next
        case F2: False
        show ?thesis
        proof (cases "w ! i \<noteq> t ! i \<and> w ! i \<noteq> ques")
          case True
          then have "\<not> tail_match w t i i" using lw F2 by (intro no_match_literal) simp_all
          with True l lw F2 g show ?thesis
            by (simp add: upperLoop.simps[of w t i] is_at_def andalso_def differ_at_def
                          isnt_at_def)
        next
          case F3: False
          have m: "andalso (differ_at w i t i) (isnt_at w i ques) = Some False"
            using F3 l lw by (auto simp: andalso_def differ_at_def isnt_at_def)
          have u: "upperLoop w t i = upperLoop w t (i + 1)"
            using m l lw F2 by (simp add: upperLoop.simps[of w t i] is_at_def)
          have al: "aligned w t 0 0 (i + 1)"
            using "1.prems"(1) l lw F2 F3 by (auto simp: aligned_Suc)
          have st: "is_at w i star = Some False" using lw F2 by (simp add: is_at_def)
          have "upperLoop w t (i + 1) = Return (glob w t)
             \<or> (\<exists>iW iT. upperLoop w t (i + 1) = Next (iW, iT)
                    \<and> lowerInv w t (iW, iT, iW, iT))"
            using "1.IH"[OF False F st _ m _ al] l lw by simp
          with u show ?thesis by simp
        qed
      qed
    qed
  qed
qed

lemma FastWildCompare_correct: "FastWildCompare w t = Verdict (glob w t)"
proof -
  from upperLoop_correct[of w t 0]
  consider (ret) "upperLoop w t 0 = Return (glob w t)"
    | (nxt) iW iT where "upperLoop w t 0 = Next (iW, iT)" "lowerInv w t (iW, iT, iW, iT)"
    by (auto simp: aligned_0)
  then show ?thesis
  proof cases
    case ret
    then show ?thesis by (simp add: FastWildCompare_def)
  next
    case nxt
    with lowerLoop_correct[OF nxt(2)] show ?thesis by (simp add: FastWildCompare_def)
  qed
qed

subsection \<open>Facts about the reference semantics\<close>

lemma FastWildCompareAscii_glob: "FastWildCompareAscii P S = Verdict (glob P S)"
  by (simp add: FastWildCompareAscii_def FastWildCompare_correct)

lemma FastWildCompareRuneSlices_glob: "FastWildCompareRuneSlices P S = Verdict (glob P S)"
  by (simp add: FastWildCompareRuneSlices_def FastWildCompare_correct)

lemma glob_imp_split: "glob P S \<Longrightarrow> split_match P S"
proof (induction P arbitrary: S)
  case Nil
  then have "concat [] = S \<and> list_all2 fits [] []" by simp
  then show ?case unfolding split_match_def by blast
next
  case (Cons p ps)
  show ?case
  proof (cases "p = star")
    case True
    with Cons.prems obtain k where "k \<le> length S" "glob ps (drop k S)"
      by (auto simp: glob_star)
    with Cons.IH obtain segs where "concat segs = drop k S" "list_all2 fits ps segs"
      unfolding split_match_def by blast
    with True have "concat (take k S # segs) = S \<and> list_all2 fits (p # ps) (take k S # segs)"
      by (simp add: fits_def)
    then show ?thesis unfolding split_match_def by blast
  next
    case False
    with Cons.prems have s: "S \<noteq> []" "p = ques \<or> p = hd S" "glob ps (tl S)"
      by (simp_all add: glob_other)
    with Cons.IH obtain segs where "concat segs = tl S" "list_all2 fits ps segs"
      unfolding split_match_def by blast
    with False s have "concat ([hd S] # segs) = S \<and> list_all2 fits (p # ps) ([hd S] # segs)"
      by (auto simp: fits_def)
    then show ?thesis unfolding split_match_def by blast
  qed
qed

lemma split_imp_glob: "list_all2 fits P segs \<Longrightarrow> glob P (concat segs)"
proof (induction P segs rule: list_all2_induct)
  case Nil
  then show ?case by simp
next
  case (Cons p ps seg segs)
  show ?case
  proof (cases "p = star")
    case True
    have "glob ps (drop (length seg) (concat (seg # segs)))" using Cons.IH by simp
    moreover have "length seg \<le> length (concat (seg # segs))" by simp
    ultimately show ?thesis unfolding True glob_star by blast
  next
    case False
    with Cons.hyps(1) obtain x where "seg = [x]" "p = ques \<or> p = x"
      by (cases seg) (auto simp: fits_def split: if_splits)
    with False Cons.IH show ?thesis by (auto simp: glob_other)
  qed
qed

lemma glob_iff_split: "glob P S = split_match P S"
  using glob_imp_split split_imp_glob unfolding split_match_def by blast

lemma glob_map_inj:
  assumes "\<And>x y. (f x = f y) = (x = y)" "f star = star" "f ques = ques"
  shows "glob (map f P) (map f S) = glob P S"
proof (induction P S rule: glob.induct)
  case (1 s)
  then show ?case by simp
next
  case (2 p ps)
  have "(f p = star) = (p = star)" using assms(1)[of p star] assms(2) by simp
  with 2 show ?case by simp
next
  case (3 p ps c cs)
  have a: "(f p = star) = (p = star)" using assms(1)[of p star] assms(2) by simp
  have b: "(f p = ques) = (p = ques)" using assms(1)[of p ques] assms(3) by simp
  show ?case
  proof (cases "p = star")
    case True
    with 3 a show ?thesis by simp
  next
    case False
    with 3 a b assms(1) show ?thesis by simp
  qed
qed

lemma ucast_rune_eq: "((ucast (x :: 8 word) :: 32 word) = ucast y) = (x = y)"
proof
  assume e: "(ucast x :: 32 word) = ucast y"
  have u: "is_up (ucast :: 8 word \<Rightarrow> 32 word)" by (simp add: is_up)
  have "x = ucast (ucast x :: 32 word)" using ucast_up_ucast_id[OF u] by simp
  also have "\<dots> = ucast (ucast y :: 32 word)" using e by simp
  also have "\<dots> = y" using ucast_up_ucast_id[OF u] by simp
  finally show "x = y" .
qed simp

lemma glob_runes: "glob (runes P) (runes S) = glob P S"
  unfolding runes_def
  by (rule glob_map_inj) (simp_all add: ucast_rune_eq star_def ques_def)

lemma glob_star_star: "glob (star # star # ps) s = glob (star # ps) s"
proof
  assume "glob (star # star # ps) s"
  then obtain k where k: "k \<le> length s" "glob (star # ps) (drop k s)"
    unfolding glob_star[of "star # ps"] by blast
  then obtain m where m: "m \<le> length (drop k s)" "glob ps (drop m (drop k s))"
    unfolding glob_star[of ps] by blast
  with k have "m + k \<le> length s" "glob ps (drop (m + k) s)" by simp_all
  then show "glob (star # ps) s" unfolding glob_star[of ps] by blast
next
  assume "glob (star # ps) s"
  then have "0 \<le> length s \<and> glob (star # ps) (drop 0 s)" by simp
  then show "glob (star # star # ps) s" unfolding glob_star[of "star # ps"] by blast
qed

lemma glob_collapseStarRuns: "glob (collapseStarRuns P) S = glob P S"
proof (induction P arbitrary: S rule: collapseStarRuns.induct)
  case (1 p q ps)
  show ?case
  proof (cases "p = star \<and> q = star")
    case True
    with 1 show ?thesis by (simp add: glob_star_star)
  next
    case False
    note IH = "1.IH"(2)[OF False]
    show ?thesis
    proof (cases "p = star")
      case True
      with False IH show ?thesis by (simp add: glob_star[of "q # ps"] glob_star)
    next
      case F: False
      with False IH show ?thesis by (simp add: glob_other[of p])
    qed
  qed
qed simp_all

text \<open>
  The definition of \<open>collapseStarRuns\<close> does what its words say: the result holds no two
  adjacent \<open>'*'\<close>, the symbols other than \<open>'*'\<close> are kept in their order, and collapsing
  a second time changes nothing.
\<close>

lemma collapseStarRuns_Cons:
  "\<exists>rest. collapseStarRuns (p # ps) = p # rest"
proof (induction ps arbitrary: p)
  case Nil
  then show ?case by simp
next
  case (Cons q qs)
  from Cons[of q] obtain rest where "collapseStarRuns (q # qs) = q # rest" by blast
  then show ?case by auto
qed

lemma collapseStarRuns_no_run:
  "Suc i < length (collapseStarRuns P) \<Longrightarrow>
   collapseStarRuns P ! i \<noteq> star \<or> collapseStarRuns P ! Suc i \<noteq> star"
proof (induction P arbitrary: i rule: collapseStarRuns.induct)
  case (1 p q ps)
  obtain rest where r: "collapseStarRuns (q # ps) = q # rest"
    using collapseStarRuns_Cons by blast
  show ?case
  proof (cases "p = star \<and> q = star")
    case True
    with 1 show ?thesis by simp
  next
    case False
    show ?thesis
    proof (cases i)
      case 0
      with False r show ?thesis by auto
    next
      case (Suc j)
      with "1.IH"(2)[OF False, of j] "1.prems" False show ?thesis by auto
    qed
  qed
qed simp_all

lemma collapseStarRuns_idem:
  "collapseStarRuns (collapseStarRuns P) = collapseStarRuns P"
proof (induction P rule: collapseStarRuns.induct)
  case (1 p q ps)
  obtain rest where r: "collapseStarRuns (q # ps) = q # rest"
    using collapseStarRuns_Cons by blast
  show ?case
  proof (cases "p = star \<and> q = star")
    case True
    with 1 show ?thesis by simp
  next
    case False
    with "1.IH"(2)[OF False] r show ?thesis by auto
  qed
qed simp_all

lemma collapseStarRuns_others:
  "filter (\<lambda>p. p \<noteq> star) (collapseStarRuns P) = filter (\<lambda>p. p \<noteq> star) P"
  by (induction P rule: collapseStarRuns.induct) auto

lemma glob_literals:
  assumes "b \<noteq> star" "b \<noteq> ques" "c \<noteq> star" "c \<noteq> ques"
  shows "glob [b, c] s = (s = [b, c])"
proof (cases s)
  case Nil
  with assms show ?thesis by simp
next
  case (Cons x xs)
  with assms show ?thesis by (cases xs) auto
qed

lemma glob_all_stars: "glob (replicate (Suc n) star) S"
proof (induction n)
  case 0
  have "length S \<le> length S \<and> glob [] (drop (length S) S)" by simp
  then have "glob [star] S" unfolding glob_star[of "[]"] by blast
  then show ?case by simp
next
  case (Suc n)
  have "0 \<le> length S \<and> glob (replicate (Suc n) star) (drop 0 S)" using Suc by simp
  then have "glob (star # replicate (Suc n) star) S"
    unfolding glob_star[of "replicate (Suc n) star"] by blast
  then show ?case by simp
qed

lemma glob_refl: "glob S S"
proof (induction S)
  case Nil
  then show ?case by simp
next
  case (Cons c cs)
  show ?case
  proof (cases "c = star")
    case True
    have "0 \<le> length cs \<and> glob cs (drop 0 cs)" using Cons by simp
    then have "glob (star # cs) cs" unfolding glob_star[of cs] by blast
    with True show ?thesis by simp
  next
    case False
    with Cons show ?thesis by simp
  qed
qed

lemma glob_subject_map:
  assumes "\<forall>p\<in>set P. p \<noteq> star \<and> p \<noteq> ques \<longrightarrow> (\<forall>s\<in>set S. (g s = p) = (s = p))"
  shows "glob P (map g S) = glob P S"
  using assms
proof (induction P S rule: glob.induct)
  case (1 s)
  then show ?case by simp
next
  case (2 p ps)
  then show ?case by simp
next
  case (3 p ps c cs)
  show ?case
  proof (cases "p = star")
    case True
    have "glob ps (map g (c # cs)) = glob ps (c # cs)"
      using "3.IH"(1)[OF True] "3.prems" by simp
    moreover have "glob (p # ps) (map g cs) = glob (p # ps) cs"
      using "3.IH"(2)[OF True] "3.prems" by simp
    ultimately show ?thesis using True by simp
  next
    case False
    show ?thesis
    proof (cases "p = ques")
      case True
      have "glob ps (map g cs) = glob ps cs"
        using "3.IH"(3)[OF False True] "3.prems" by simp
      with False True show ?thesis by simp
    next
      case F: False
      have "glob ps (map g cs) = glob ps cs"
        using "3.IH"(4)[OF False F] "3.prems" by simp
      moreover have "(p = g c) = (p = c)" using "3.prems" False F by auto
      ultimately show ?thesis using False F by simp
    qed
  qed
qed

lemma glob_keeps_comparisons:
  "keeps_comparisons P g S \<Longrightarrow> glob P (map g S) = glob P S"
  by (rule glob_subject_map) (auto simp: keeps_comparisons_def list_all_iff)

lemma seekFirst_no_panic:
  "iW < length w \<Longrightarrow> iT < length t \<Longrightarrow> seekFirst w t iW iT \<noteq> Panic"
proof (induction w t iW iT rule: seekFirst.induct)
  case (1 w t iW iT)
  show ?case
  proof (cases "w ! iW \<noteq> t ! iT \<and> \<not> length t \<le> iT + 1")
    case True
    then have "seekFirst w t iW iT = seekFirst w t iW (iT + 1)"
      using "1.prems" by (simp add: seekFirst.simps[of w t iW iT] differ_at_def)
    moreover have "seekFirst w t iW (iT + 1) \<noteq> Panic"
      using "1.IH"[of True] True "1.prems" by (simp add: differ_at_def)
    ultimately show ?thesis by simp
  next
    case False
    with "1.prems" show ?thesis
      by (auto simp: seekFirst.simps[of w t iW iT] differ_at_def)
  qed
qed

lemma fallBack_no_panic: "fallBack w t a j \<noteq> Panic"
proof (induction w t a j rule: fallBack.induct)
  case (1 w t a j)
  show ?case
  proof (cases "length t \<le> j + 1")
    case True
    then show ?thesis by (simp add: fallBack.simps[of w t a j])
  next
    case False
    then have l: "j + 1 < length t" by simp
    show ?thesis
    proof (cases "a < length w \<and> w ! a = t ! (j + 1)")
      case True
      with l show ?thesis
        by (simp add: fallBack.simps[of w t a j] andalso_def same_at_def)
    next
      case F: False
      with l have c: "andalso (Some (a < length w)) (same_at w a t (j + 1)) = Some False"
        by (auto simp: andalso_def same_at_def)
      with "1.IH"[OF False c] False show ?thesis
        by (simp add: fallBack.simps[of w t a j])
    qed
  qed
qed

lemma gotWild_no_panic:
  assumes "iWild < length w" "w ! iWild = star" "iWild < length t"
  shows "gotWild w t iWild \<noteq> Panic"
proof -
  have "iWild \<le> length t" using assms(3) by simp
  from gotWildAgain_match[OF assms(1,2) this] show ?thesis
    using gotWild_eq[OF assms(3), of w] by auto
qed

lemma glob_some_stars: "0 < n \<Longrightarrow> glob (replicate n star) S"
  using glob_all_stars[of "n - 1" S] by simp

lemma glob_suffix_match:
  assumes "a \<noteq> star" "a \<noteq> ques" "b \<noteq> star" "b \<noteq> ques" "c \<noteq> star" "c \<noteq> ques"
  shows "glob [a, star, b, c] (a # F @ [b, c])"
proof -
  have "length F \<le> length (F @ [b, c]) \<and> glob [b, c] (drop (length F) (F @ [b, c]))"
    using assms by (simp add: glob_literals)
  then have "glob (star # [b, c]) (F @ [b, c])"
    unfolding glob_star[of "[b, c]"] by blast
  with assms show ?thesis by simp
qed

lemma glob_suffix_mismatch:
  assumes "a \<noteq> star" "a \<noteq> ques" "b \<noteq> star" "b \<noteq> ques" "c \<noteq> star" "c \<noteq> ques"
    "c \<noteq> d"
  shows "\<not> glob [a, star, b, c] (a # F @ [b, d])"
proof -
  have l: "glob [b, c] s = (s = [b, c])" for s
    using assms by (intro glob_literals) simp_all
  have "\<not> glob (star # [b, c]) (F @ [b, d])"
  proof
    assume "glob (star # [b, c]) (F @ [b, d])"
    then obtain k where k: "drop k (F @ [b, d]) = [b, c]"
      unfolding glob_star[of "[b, c]"] l by blast
    then have "last (drop k (F @ [b, d])) = c" by simp
    moreover have "k < length (F @ [b, d])"
      using k by (metis drop_all le_less_linear list.distinct(1))
    ultimately have "last (F @ [b, d]) = c" by (simp add: last_drop)
    with assms show False by simp
  qed
  with assms show ?thesis by simp
qed

section \<open>Properties of the routines\<close>

subsection \<open>Agreement with the reference semantics\<close>

text \<open>
  Claim C1. For every pattern and subject, each routine returns the verdict of the
  reference semantics: the exhaustive search \<open>glob\<close>, in which a literal matches a symbol
  of equal value, \<open>'?'\<close> exactly one symbol and \<open>'*'\<close> any number of symbols. The routine
  returns true exactly if some split of the subject fits the pattern.
\<close>

theorem matches_reference_semantics:
  "FastWildCompareAscii P S = Verdict (glob P S)
   \<and> FastWildCompareRuneSlices P' S' = Verdict (glob P' S')
   \<and> (FastWildCompareAscii P S = Verdict True \<longleftrightarrow> split_match P S)
   \<and> (FastWildCompareRuneSlices P' S' = Verdict True \<longleftrightarrow> split_match P' S')"
  by (simp add: FastWildCompareAscii_glob FastWildCompareRuneSlices_glob glob_iff_split)

theorem matches_reference_semantics_witness:
  "FastWildCompareAscii (bytes ''*a?b'') (bytes ''caaab'') = Verdict True
   \<and> split_match (bytes ''*a?b'') (bytes ''caaab'')
   \<and> FastWildCompareAscii (bytes ''?a*??'') (bytes ''abcd'') = Verdict False
   \<and> FastWildCompareRuneSlices (runes (bytes ''ab*c*'')) (runes (bytes ''abxxcxx''))
       = Verdict True"
  using matches_reference_semantics
          [of "bytes ''*a?b''" "bytes ''caaab''"
              "runes (bytes ''ab*c*'')" "runes (bytes ''abxxcxx'')"]
        matches_reference_semantics
          [of "bytes ''?a*??''" "bytes ''abcd''" "[]" "[]"]
  by (auto simp add: bytes_def runes_def star_def ques_def)

subsection \<open>Termination\<close>

text \<open>
  Claim C2. Both routines return a verdict for every pair of texts (the loops are total
  functions, and no run ends in a panic). The retry is bounded: each retry that does not
  return moves the fallback position of the tame text strictly forward and keeps it
  inside the tame text, and every turn of the lower loop that does not return moves the
  cursor down in a well-founded order.
\<close>

theorem terminates_with_a_verdict:
  "(\<exists>b. FastWildCompareAscii P S = Verdict b)
   \<and> (\<exists>b. FastWildCompareRuneSlices P' S' = Verdict b)
   \<and> (retry strWild strTame iWildSequence iTameSequence
         = Next (iWildSequence', iTameSequence')
       \<longrightarrow> iTameSequence < iTameSequence' \<and> iTameSequence' < length strTame)
   \<and> (lowerStep strWild strTame cur = Next cur' \<longrightarrow> (cur', cur) \<in> lowerOrder strWild strTame)
   \<and> wf (lowerOrder strWild strTame)"
  using retry_Next[of strWild strTame iWildSequence iTameSequence]
        lowerStep_decreases[of strWild strTame cur cur']
  by (simp add: FastWildCompareAscii_glob FastWildCompareRuneSlices_glob lowerOrder_def)

theorem terminates_with_a_verdict_witness:
  "retry (bytes ''*ab'') (bytes ''aab'') 1 0 = Next (1, 1)
   \<and> (0::nat) < 1 \<and> (1::nat) < length (bytes ''aab'')
   \<and> lowerStep (bytes ''*ab'') (bytes ''aab'') (2, 1, 1, 0) = Next (2, 2, 1, 1)
   \<and> ((2, 2, 1, 1), (2, 1, 1, 0)) \<in> lowerOrder (bytes ''*ab'') (bytes ''aab'')
   \<and> (\<exists>b. FastWildCompareAscii (bytes ''*ab'') (bytes ''aab'') = Verdict b)"
proof -
  have r: "retry (bytes ''*ab'') (bytes ''aab'') 1 0 = Next (1, 1)"
    by code_simp
  have s: "lowerStep (bytes ''*ab'') (bytes ''aab'') (2, 1, 1, 0) = Next (2, 2, 1, 1)"
    by code_simp
  from terminates_with_a_verdict
         [of "bytes ''*ab''" "bytes ''aab''" "[]" "[]" "bytes ''*ab''" "bytes ''aab''"
             1 0 1 1 "(2, 1, 1, 0)" "(2, 2, 1, 1)"] r s
  show ?thesis by simp
qed

subsection \<open>Bytes and runes\<close>

text \<open>
  Claim C3. For a pattern and a subject made of single-byte symbols only, the routine for
  rune slices, applied to the rune slices of the two texts, returns what the routine for
  bytes returns on the texts themselves.
\<close>

theorem ascii_and_runes_agree:
  "ascii P \<Longrightarrow> ascii S \<Longrightarrow>
   FastWildCompareRuneSlices (runes P) (runes S) = FastWildCompareAscii P S"
  by (simp add: FastWildCompareAscii_glob FastWildCompareRuneSlices_glob glob_runes)

theorem ascii_and_runes_agree_witness:
  "ascii (bytes ''a*b?'') \<and> ascii (bytes ''aXXbY'')
   \<and> FastWildCompareRuneSlices (runes (bytes ''a*b?'')) (runes (bytes ''aXXbY''))
       = FastWildCompareAscii (bytes ''a*b?'') (bytes ''aXXbY'')
   \<and> FastWildCompareAscii (bytes ''a*b?'') (bytes ''aXXbY'') = Verdict True"
proof -
  have a: "ascii (bytes ''a*b?'')" "ascii (bytes ''aXXbY'')"
    by (simp_all add: ascii_def bytes_def)
  have v: "FastWildCompareAscii (bytes ''a*b?'') (bytes ''aXXbY'') = Verdict True"
    by code_simp
  from ascii_and_runes_agree[OF a] a v show ?thesis by simp
qed

subsection \<open>Runs of the multi-symbol wildcard\<close>

text \<open>
  Claim C4. Replacing every maximal run of consecutive \<open>'*'\<close> in the pattern by a single
  \<open>'*'\<close> does not change the verdict of either routine, for any pattern and subject.
\<close>

theorem collapsing_star_runs_keeps_verdict:
  "FastWildCompareAscii (collapseStarRuns P) S = FastWildCompareAscii P S
   \<and> FastWildCompareRuneSlices (collapseStarRuns P') S' = FastWildCompareRuneSlices P' S'"
  by (simp add: FastWildCompareAscii_glob FastWildCompareRuneSlices_glob
        glob_collapseStarRuns)

theorem collapsing_star_runs_keeps_verdict_witness:
  "collapseStarRuns (bytes ''***a****b**c*'') = bytes ''*a*b*c*''
   \<and> FastWildCompareAscii (bytes ''*a*b*c*'') (bytes ''xaybzc'')
       = FastWildCompareAscii (bytes ''***a****b**c*'') (bytes ''xaybzc'')
   \<and> FastWildCompareAscii (bytes ''***a****b**c*'') (bytes ''xaybzc'') = Verdict True"
proof -
  have c: "collapseStarRuns (bytes ''***a****b**c*'') = bytes ''*a*b*c*''"
    by (simp add: bytes_def star_def)
  have v: "FastWildCompareAscii (bytes ''***a****b**c*'') (bytes ''xaybzc'') = Verdict True"
    by code_simp
  from collapsing_star_runs_keeps_verdict
         [of "bytes ''***a****b**c*''" "bytes ''xaybzc''" "[]" "[]"] c v
  show ?thesis by simp
qed

subsection \<open>Backtracking to the required suffix\<close>

text \<open>
  Claim C5. For every filler, of any length and of any symbols, the pattern \<open>"a*bc"\<close>
  matches \<open>"a"\<close>, the filler and \<open>"bc"\<close>, and does not match \<open>"a"\<close>, the filler and
  \<open>"bd"\<close>; this holds for both routines.
\<close>

theorem backtracking_finds_the_suffix:
  "FastWildCompareAscii (bytes ''a*bc'') (bytes ''a'' @ XXX @ bytes ''bc'') = Verdict True
   \<and> FastWildCompareAscii (bytes ''a*bc'') (bytes ''a'' @ XXX @ bytes ''bd'') = Verdict False
   \<and> FastWildCompareRuneSlices (runes (bytes ''a*bc''))
        (runes (bytes ''a'') @ YYY @ runes (bytes ''bc'')) = Verdict True
   \<and> FastWildCompareRuneSlices (runes (bytes ''a*bc''))
        (runes (bytes ''a'') @ YYY @ runes (bytes ''bd'')) = Verdict False"
proof -
  have b: "bytes ''a*bc'' = [0x61, star, 0x62, 0x63]" "bytes ''a'' = [0x61]"
    "bytes ''bc'' = [0x62, 0x63]" "bytes ''bd'' = [0x62, 0x64]"
    by (simp_all add: bytes_def star_def)
  show ?thesis
    unfolding FastWildCompareAscii_glob FastWildCompareRuneSlices_glob b
    using glob_suffix_match[of "0x61 :: 8 word" "0x62" "0x63" XXX]
          glob_suffix_mismatch[of "0x61 :: 8 word" "0x62" "0x63" "0x64" XXX]
          glob_suffix_match[of "0x61 :: 32 word" "0x62" "0x63" YYY]
          glob_suffix_mismatch[of "0x61 :: 32 word" "0x62" "0x63" "0x64" YYY]
    by (simp add: star_def ques_def runes_def)
qed

theorem backtracking_finds_the_suffix_witness:
  "FastWildCompareAscii (bytes ''a*bc'') (bytes ''abcXbbc'') = Verdict True
   \<and> FastWildCompareAscii (bytes ''a*bc'') (bytes ''abcXbbd'') = Verdict False"
  using backtracking_finds_the_suffix[of "bytes ''bcXb''" "[]"]
  by (simp add: bytes_def)

subsection \<open>Wildcard values in the subject\<close>

text \<open>
  Claim C6. A subject symbol whose value is that of \<open>'*'\<close> or \<open>'?'\<close> is an ordinary
  symbol. The verdict depends on the subject only through the comparison of its symbols
  with the literal symbols of the pattern: renaming subject symbols in any way that
  keeps every such comparison (\<open>keeps_comparisons\<close>) keeps the verdict, so a \<open>'*'\<close> or
  \<open>'?'\<close> of the subject may be replaced by any symbol the pattern does not hold. In particular \<open>"a*b"\<close> matches
  \<open>"a*abab"\<close> and \<open>"*"\<close> matches \<open>"*"\<close>, while \<open>"a"\<close> does not match \<open>"*"\<close> and \<open>"ab"\<close> does
  not match \<open>"a?"\<close>.
\<close>

theorem subject_symbols_are_literals:
  "(keeps_comparisons P g S
      \<longrightarrow> FastWildCompareAscii P (map g S) = FastWildCompareAscii P S)
   \<and> (keeps_comparisons P' g' S'
      \<longrightarrow> FastWildCompareRuneSlices P' (map g' S') = FastWildCompareRuneSlices P' S')
   \<and> FastWildCompareAscii (bytes ''a*b'') (bytes ''a*abab'') = Verdict True
   \<and> FastWildCompareAscii (bytes ''*'') (bytes ''*'') = Verdict True
   \<and> FastWildCompareAscii (bytes ''a'') (bytes ''*'') = Verdict False
   \<and> FastWildCompareAscii (bytes ''ab'') (bytes ''a?'') = Verdict False"
proof -
  have "FastWildCompareAscii (bytes ''a*b'') (bytes ''a*abab'') = Verdict True"
    "FastWildCompareAscii (bytes ''*'') (bytes ''*'') = Verdict True"
    "FastWildCompareAscii (bytes ''a'') (bytes ''*'') = Verdict False"
    "FastWildCompareAscii (bytes ''ab'') (bytes ''a?'') = Verdict False"
    by (simp_all add: FastWildCompareAscii_glob bytes_def star_def ques_def)
  then show ?thesis
    by (simp add: FastWildCompareAscii_glob FastWildCompareRuneSlices_glob
          glob_keeps_comparisons)
qed

theorem subject_symbols_are_literals_witness:
  "keeps_comparisons (bytes ''a*b'') (\<lambda>s. if s = star then 0x7A else s) (bytes ''a*abab'')
   \<and> map (\<lambda>s. if s = star then 0x7A else s) (bytes ''a*abab'') = bytes ''azabab''
   \<and> FastWildCompareAscii (bytes ''a*b'') (bytes ''azabab'')
       = FastWildCompareAscii (bytes ''a*b'') (bytes ''a*abab'')"
proof -
  have h: "keeps_comparisons (bytes ''a*b'') (\<lambda>s. if s = star then 0x7A else s)
             (bytes ''a*abab'')"
    by (simp add: keeps_comparisons_def bytes_def star_def ques_def)
  have m: "map (\<lambda>s. if s = star then 0x7A else s) (bytes ''a*abab'') = bytes ''azabab''"
    by (simp add: bytes_def star_def)
  from subject_symbols_are_literals
         [of "bytes ''a*b''" "\<lambda>s. if s = star then 0x7A else s" "bytes ''a*abab''"
             "[]" "\<lambda>s. s" "[]"] h m
  show ?thesis by simp
qed

subsection \<open>The empty pattern and the lone question mark\<close>

lemma upperLoop_empty_wild:
  "upperLoop [] strTame 0 = Return (strTame = [])"
  by (cases strTame) (simp_all add: upperLoop.simps[of "[]" _ 0])

lemma ques_neq_star: "(ques :: 'a::len word) \<noteq> star"
proof
  assume "(ques :: 'a word) = star"
  then have "odd (ques :: 'a word) = odd (star :: 'a word)" by simp
  then show False by (simp add: ques_def star_def)
qed

lemma upperLoop_ques_empty:
  "upperLoop [ques] [] 0 = Return False"
  by (simp add: upperLoop.simps[of _ "[]" 0] trailingStars.simps[of _ 0] is_at_def at_def
        ques_neq_star)

text \<open>
  Claim C7. The empty pattern matches the empty subject and no other, and the pattern
  \<open>"?"\<close> does not match the empty subject; this holds for both routines.
\<close>

theorem empty_pattern_and_lone_question:
  "FastWildCompareAscii [] [] = Verdict True
   \<and> (S \<noteq> [] \<longrightarrow> FastWildCompareAscii [] S = Verdict False)
   \<and> FastWildCompareAscii [ques] [] = Verdict False
   \<and> FastWildCompareRuneSlices [] [] = Verdict True
   \<and> (R \<noteq> [] \<longrightarrow> FastWildCompareRuneSlices [] R = Verdict False)
   \<and> FastWildCompareRuneSlices [ques] [] = Verdict False"
  by (simp add: FastWildCompareAscii_def FastWildCompareRuneSlices_def FastWildCompare_def
        upperLoop_empty_wild upperLoop_ques_empty)

theorem empty_pattern_and_lone_question_witness:
  "bytes ''x'' \<noteq> []
   \<and> FastWildCompareAscii (bytes '''') (bytes ''x'') = Verdict False
   \<and> FastWildCompareAscii (bytes ''?'') (bytes '''') = Verdict False
   \<and> FastWildCompareAscii (bytes '''') (bytes '''') = Verdict True
   \<and> FastWildCompareRuneSlices [] [0x78] = Verdict False"
  using empty_pattern_and_lone_question [of "bytes ''x''" "[0x78]"]
  by (simp add: bytes_def ques_def)

subsection \<open>Patterns of multi-symbol wildcards only\<close>

text \<open>
  Claim C8. A pattern that consists of one or more \<open>'*'\<close> and nothing else matches every
  subject, the empty subject included; in particular \<open>"*"\<close> matches every subject.
\<close>

theorem all_stars_match_everything:
  "(0 < n \<longrightarrow> FastWildCompareAscii (replicate n star) S = Verdict True)
   \<and> (0 < n \<longrightarrow> FastWildCompareRuneSlices (replicate n star) S' = Verdict True)
   \<and> FastWildCompareAscii (bytes ''*'') S = Verdict True
   \<and> FastWildCompareAscii (bytes ''*'') [] = Verdict True"
proof -
  have "bytes ''*'' = replicate (Suc 0) star" by (simp add: bytes_def star_def)
  then show ?thesis
    using glob_all_stars[of 0 S] glob_all_stars[of 0 "[] :: 8 word list"]
    by (simp add: FastWildCompareAscii_glob FastWildCompareRuneSlices_glob
          glob_some_stars)
qed

theorem all_stars_match_everything_witness:
  "(0::nat) < 3 \<and> replicate 3 star = bytes ''***''
   \<and> FastWildCompareAscii (bytes ''***'') (bytes ''a?*b'') = Verdict True
   \<and> FastWildCompareAscii (bytes ''***'') [] = Verdict True"
  using all_stars_match_everything[of 3 "bytes ''a?*b''" "[]"]
        all_stars_match_everything[of 3 "[]" "[]"]
  by (simp add: bytes_def star_def numeral_3_eq_3)

subsection \<open>A text against itself\<close>

text \<open>
  Claim C9. Every text, taken as the pattern and as the subject at once, matches.
\<close>

theorem matches_itself:
  "FastWildCompareAscii S S = Verdict True
   \<and> FastWildCompareRuneSlices S' S' = Verdict True"
  by (simp add: FastWildCompareAscii_glob FastWildCompareRuneSlices_glob glob_refl)

theorem matches_itself_witness:
  "FastWildCompareAscii (bytes ''a*b?c'') (bytes ''a*b?c'') = Verdict True"
  using matches_itself[of "bytes ''a*b?c''" "[]"] by simp

subsection \<open>Index reads\<close>

text \<open>
  Claim C10. No run of either routine reads a text outside its bounds: the outcome is
  never the panic. In particular the search after a \<open>'*'\<close> in the upper loop, which reads
  the tame text before it checks the length, does not panic when it is entered in
  bounds, and the upper loop enters it in bounds; the search for the next fallback
  position checks the length before every read and never panics.
\<close>

theorem index_reads_in_bounds:
  "FastWildCompareAscii P S \<noteq> OutOfRange
   \<and> FastWildCompareRuneSlices P' S' \<noteq> OutOfRange
   \<and> (iWild < length strWild \<and> iTame < length strTame
       \<longrightarrow> seekFirst strWild strTame iWild iTame \<noteq> Panic)
   \<and> (iWild < length strWild \<and> strWild ! iWild = star \<and> iWild < length strTame
       \<longrightarrow> gotWild strWild strTame iWild \<noteq> Panic)
   \<and> fallBack strWild strTame iWild iTameSequence \<noteq> Panic"
  using seekFirst_no_panic[of iWild strWild iTame strTame]
        gotWild_no_panic[of iWild strWild strTame]
        fallBack_no_panic[of strWild strTame iWild iTameSequence]
  by (simp add: FastWildCompareAscii_glob FastWildCompareRuneSlices_glob)

theorem index_reads_in_bounds_witness:
  "(1::nat) < length (bytes ''a*bc'') \<and> bytes ''a*bc'' ! 1 = star
   \<and> (1::nat) < length (bytes ''ab'')
   \<and> gotWild (bytes ''a*bc'') (bytes ''ab'') 1 \<noteq> Panic
   \<and> (2::nat) < length (bytes ''a*bc'')
   \<and> seekFirst (bytes ''a*bc'') (bytes ''ab'') 2 1 \<noteq> Panic
   \<and> FastWildCompareAscii (bytes ''a*bc'') (bytes ''ab'') \<noteq> OutOfRange"
  using index_reads_in_bounds
          [of "bytes ''a*bc''" "bytes ''ab''" "[]" "[]" 1 "bytes ''a*bc''" 1 "bytes ''ab''" 0]
        index_reads_in_bounds
          [of "bytes ''a*bc''" "bytes ''ab''" "[]" "[]" 2 "bytes ''a*bc''" 1 "bytes ''ab''" 0]
  by (simp add: bytes_def star_def)

end
